theory Spec2Isabelle
  imports Main "HOL-Library.AList" "HOL-Library.Sublist" "HOL-Library.Char_ord"
    "HOL-Library.List_Lexorder" "HOL-Library.Sorting_Algorithms"
begin

section \<open>Strings\<close>

text \<open>
  A JavaScript string is modelled as a \<^typ>\<open>string\<close>, each character standing for one
  code unit in the range U+0000..U+00FF. The functions below are the string methods
  the backend calls: \<open>trim\<close>, \<open>replace\<close> with the two regular expressions of the
  source, \<open>split\<close>, \<open>join\<close>, \<open>startsWith\<close>, \<open>endsWith\<close> and \<open>slice(0, -1)\<close>.
\<close>

definition slash :: char where
  "slash = CHR ''/''"

definition backslash :: char where
  "backslash = CHR 0x5C"

text \<open>White space and line terminators of ECMAScript that fit in one 8-bit code unit.\<close>

definition isWhiteSpace :: "char \<Rightarrow> bool" where
  "isWhiteSpace c \<longleftrightarrow>
     c = CHR 0x09 \<or> c = CHR 0x0A \<or> c = CHR 0x0B \<or> c = CHR 0x0C \<or> c = CHR 0x0D \<or>
     c = CHR 0x20 \<or> c = CHR 0xA0"

definition trim :: "string \<Rightarrow> string" where
  "trim s = rev (dropWhile isWhiteSpace (rev (dropWhile isWhiteSpace s)))"

text \<open>\<open>s.replace(/\\/g, '/')\<close>\<close>

definition replaceBackslashes :: "string \<Rightarrow> string" where
  "replaceBackslashes s = map (\<lambda>c. if c = backslash then slash else c) s"

text \<open>\<open>s.replace(/\/+/g, '/')\<close>: every maximal run of slashes becomes one slash.\<close>

fun collapseSlashes :: "string \<Rightarrow> string" where
  "collapseSlashes [] = []"
| "collapseSlashes [c] = [c]"
| "collapseSlashes (c # d # s) =
     (if c = slash \<and> d = slash then collapseSlashes (d # s)
      else c # collapseSlashes (d # s))"

text \<open>\<open>s.replace(/^\//, '')\<close>\<close>

definition dropLeadingSlash :: "string \<Rightarrow> string" where
  "dropLeadingSlash s = (case s of [] \<Rightarrow> [] | c # r \<Rightarrow> if c = slash then r else s)"

definition startsWith :: "string \<Rightarrow> string \<Rightarrow> bool" where
  "startsWith s p \<longleftrightarrow> prefix p s"

definition endsWith :: "string \<Rightarrow> string \<Rightarrow> bool" where
  "endsWith s p \<longleftrightarrow> suffix p s"

text \<open>\<open>s.split('/')\<close>: the pieces between slashes, empty pieces included.\<close>

fun split_slash :: "string \<Rightarrow> string list" where
  "split_slash [] = [[]]"
| "split_slash (c # s) =
     (if c = slash then [] # split_slash s
      else (case split_slash s of
              [] \<Rightarrow> [[c]]
            | p # ps \<Rightarrow> (c # p) # ps))"

text \<open>\<open>xs.join('/')\<close>\<close>

fun join_slash :: "string list \<Rightarrow> string" where
  "join_slash [] = []"
| "join_slash [x] = x"
| "join_slash (x # y # ys) = x @ slash # join_slash (y # ys)"

text \<open>\<open>s.split('/').filter((segment) => segment.length > 0)\<close>\<close>

definition segments :: "string \<Rightarrow> string list" where
  "segments s = filter (\<lambda>p. p \<noteq> []) (split_slash s)"

section \<open>The path module of Node.js, POSIX variant\<close>

text \<open>
  The backend calls \<open>path.sep\<close>, \<open>path.isAbsolute\<close>, \<open>path.normalize\<close>,
  \<open>path.join\<close>, \<open>path.resolve\<close> and \<open>path.dirname\<close> of the Node.js runtime. They
  are modelled here as Node.js documents and implements them for POSIX, where the
  separator is the slash.

  The internal \<open>normalizeString\<close> of Node.js walks over the segments of a path from left
  to right and keeps the segments of the result: an empty segment and \<open>.\<close> are skipped,
  \<open>..\<close> removes the last kept segment unless there is none or it is \<open>..\<close> itself, in
  which case \<open>..\<close> is kept when the path is relative and skipped when it is absolute; any
  other segment is kept. \<open>normalizeStep\<close> is one step of that walk on the kept segments.
\<close>

definition path_sep :: string where
  "path_sep = [slash]"

definition path_isAbsolute :: "string \<Rightarrow> bool" where
  "path_isAbsolute p \<longleftrightarrow> (case p of [] \<Rightarrow> False | c # _ \<Rightarrow> c = slash)"

definition normalizeStep :: "bool \<Rightarrow> string list \<Rightarrow> string \<Rightarrow> string list" where
  "normalizeStep allowAboveRoot res seg =
     (if seg = ''.'' then res
      else if seg = ''..'' then
        (if res \<noteq> [] \<and> last res \<noteq> ''..'' then butlast res
         else if allowAboveRoot then res @ [''..'']
         else res)
      else res @ [seg])"

definition normalizeSegments :: "bool \<Rightarrow> string list \<Rightarrow> string list" where
  "normalizeSegments allowAboveRoot segs = foldl (normalizeStep allowAboveRoot) [] segs"

definition normalizeString :: "string \<Rightarrow> bool \<Rightarrow> string" where
  "normalizeString p allowAboveRoot =
     join_slash (normalizeSegments allowAboveRoot (segments p))"

definition path_normalize :: "string \<Rightarrow> string" where
  "path_normalize p =
     (if p = [] then ''.''
      else
        let isAbsolute = (hd p = slash);
            trailingSeparator = (last p = slash);
            n = normalizeString p (\<not> isAbsolute)
        in if n = [] then
             (if isAbsolute then ''/'' else if trailingSeparator then ''./'' else ''.'')
           else
             (if isAbsolute then [slash] else []) @ n @
             (if trailingSeparator then [slash] else []))"

text \<open>\<open>path.join(...args)\<close>: the non-empty arguments joined by slashes, then normalized.\<close>

definition path_join :: "string list \<Rightarrow> string" where
  "path_join args =
     (let parts = filter (\<lambda>a. a \<noteq> []) args
      in if parts = [] then ''.'' else path_normalize (join_slash parts))"

text \<open>
  \<open>path.resolve(...args)\<close> goes through the arguments from the last to the first, and
  then the current working directory, prepending each non-empty one until the path is
  absolute. \<open>resolveLoop\<close> takes the arguments in that order.
\<close>

fun resolveLoop :: "string list \<Rightarrow> string \<Rightarrow> string \<times> bool" where
  "resolveLoop [] resolvedPath = (resolvedPath, False)"
| "resolveLoop (p # ps) resolvedPath =
     (if p = [] then resolveLoop ps resolvedPath
      else if hd p = slash then (p @ slash # resolvedPath, True)
      else resolveLoop ps (p @ slash # resolvedPath))"

definition path_resolve :: "string \<Rightarrow> string list \<Rightarrow> string" where
  "path_resolve cwd args =
     (case resolveLoop (rev args @ [cwd]) [] of
        (resolvedPath, resolvedAbsolute) \<Rightarrow>
          let n = normalizeString resolvedPath (\<not> resolvedAbsolute)
          in if resolvedAbsolute then slash # n
             else if n \<noteq> [] then n else ''.'')"

text \<open>
  \<open>path.dirname(p)\<close> looks from the end of the path, never at its first character, past
  trailing slashes and past the last segment, and cuts at the slash it finds there.
\<close>

definition path_dirname :: "string \<Rightarrow> string" where
  "path_dirname p =
     (case p of
        [] \<Rightarrow> ''.''
      | c # r \<Rightarrow>
          (case dropWhile (\<lambda>x. x \<noteq> slash) (dropWhile (\<lambda>x. x = slash) (rev r)) of
             [] \<Rightarrow> if c = slash then ''/'' else ''.''
           | _ # front \<Rightarrow>
               if c = slash \<and> front = [] then ''//'' else c # rev front))"

section \<open>Configuration\<close>

text \<open>
  \<open>VOLUME_PATH\<close> and \<open>ROOT_NAME\<close> are read from the environment once, with the defaults of
  the source (\<open>process.env.X || default\<close>: an unset or empty variable gives the default).
  \<open>process_cwd\<close> is what \<open>process.cwd()\<close> returns.
\<close>

record environment =
  env_VOLUME_PATH :: "string option"
  env_ROOT_NAME :: "string option"
  process_cwd :: string

definition orDefault :: "string option \<Rightarrow> string \<Rightarrow> string" where
  "orDefault v d = (case v of None \<Rightarrow> d | Some s \<Rightarrow> if s = [] then d else s)"

definition VOLUME_PATH :: "environment \<Rightarrow> string" where
  "VOLUME_PATH env = orDefault (env_VOLUME_PATH env) ''./Haptic''"

definition ROOT_NAME :: "environment \<Rightarrow> string" where
  "ROOT_NAME env = orDefault (env_ROOT_NAME env) ''Haptic''"

text \<open>\<open>path.resolve(VOLUME_PATH)\<close>, the storage root.\<close>

definition volResolved :: "environment \<Rightarrow> string" where
  "volResolved env = path_resolve (process_cwd env) [VOLUME_PATH env]"

section \<open>The path resolver\<close>

text \<open>
  A value received from a request: \<open>undefined\<close>, a string, an array, or any other
  value, of which only its truthiness is kept.
\<close>

datatype js_value = Undefined | Str string | Arr "js_value list" | NonString bool

text \<open>Truthiness, as \<open>!v\<close> and \<open>a && b\<close> test it.\<close>

fun truthy :: "js_value \<Rightarrow> bool" where
  "truthy Undefined = False"
| "truthy (Str s) = (s \<noteq> [])"
| "truthy (Arr _) = True"
| "truthy (NonString b) = b"

record prepared =
  targetPath :: string
  normalizedPath :: string
  original :: string

text \<open>\<open>/^[a-zA-Z]:/.test(s)\<close>\<close>

definition isAsciiLetter :: "char \<Rightarrow> bool" where
  "isAsciiLetter c \<longleftrightarrow>
     (let n = of_char c :: nat in (65 \<le> n \<and> n \<le> 90) \<or> (97 \<le> n \<and> n \<le> 122))"

definition hasWindowsDrive :: "string \<Rightarrow> bool" where
  "hasWindowsDrive s \<longleftrightarrow>
     (case s of c # d # _ \<Rightarrow> isAsciiLetter c \<and> d = CHR '':'' | _ \<Rightarrow> False)"

text \<open>
  \<open>prepareOperationPath\<close>; \<open>None\<close> is the \<open>null\<close> it returns. The parameter defaults to
  the empty string when the argument is \<open>undefined\<close>.
\<close>

definition prepareOperationPath :: "js_value \<Rightarrow> prepared option" where
  "prepareOperationPath rawPath =
     (case (case rawPath of Undefined \<Rightarrow> Str [] | v \<Rightarrow> v) of
        Undefined \<Rightarrow> None
      | Arr _ \<Rightarrow> None
      | NonString _ \<Rightarrow> None
      | Str raw \<Rightarrow>
          let trimmed = trim raw in
          if trimmed = [] then None
          else
            let normalizedSlashes = collapseSlashes (replaceBackslashes trimmed);
                cleaned =
                  (if normalizedSlashes \<noteq> ''/'' \<and> endsWith normalizedSlashes ''/''
                   then butlast normalizedSlashes else normalizedSlashes)
            in
            if cleaned = [] then None
            else if cleaned = ''/'' then
              (let fsPath = path_normalize path_sep
               in Some \<lparr>targetPath = fsPath, normalizedPath = fsPath, original = trimmed\<rparr>)
            else
              let segs = segments cleaned in
              if segs = [] then None
              else
                let startsWithRoot = startsWith cleaned ''/'';
                    fsPath =
                      (if startsWithRoot \<and> \<not> hasWindowsDrive (hd segs)
                       then path_join (path_sep # segs)
                       else path_join segs);
                    target = path_normalize fsPath
                in Some \<lparr>targetPath = target, normalizedPath = target, original = trimmed\<rparr>)"

text \<open>
  The outcome of \<open>resolveFsPathFromApiPath\<close>: it returns \<open>null\<close>, it returns the pair of
  the prepared path and the filesystem path, or it throws
  \<open>Error('Resolved path escapes the volume')\<close>.
\<close>

datatype resolution =
    Null
  | Resolved prepared string
  | Throws string

definition insideVolume :: "environment \<Rightarrow> string \<Rightarrow> bool" where
  "insideVolume env p \<longleftrightarrow>
     startsWith p (volResolved env @ path_sep) \<or> p = volResolved env"

definition resolveFsPathFromApiPath :: "environment \<Rightarrow> js_value \<Rightarrow> resolution" where
  "resolveFsPathFromApiPath env rawPath =
     (case prepareOperationPath rawPath of
        None \<Rightarrow> Null
      | Some prep \<Rightarrow>
          let normalized = replaceBackslashes (normalizedPath prep);
              apiPrefix = slash # ROOT_NAME env;
              checked = (\<lambda>relativeInsideVolume.
                 let fsPath = path_resolve (process_cwd env) [VOLUME_PATH env, relativeInsideVolume]
                 in if \<not> insideVolume env fsPath
                    then Throws ''Resolved path escapes the volume''
                    else Resolved prep fsPath)
          in
          if normalized = apiPrefix then checked []
          else if startsWith normalized (apiPrefix @ ''/'') then
            checked (drop (length apiPrefix + 1) normalized)
          else if path_isAbsolute normalized then
            (let resolved = path_resolve (process_cwd env) [normalized]
             in if insideVolume env resolved then Resolved prep resolved
                else checked (dropLeadingSlash normalized))
          else checked normalized)"

section \<open>The filesystem\<close>

text \<open>
  The backend reaches the disk through \<open>fs.promises\<close> of Node.js: \<open>stat\<close>, \<open>mkdir\<close> with
  \<open>recursive: true\<close>, \<open>writeFile\<close>, \<open>readdir\<close>, \<open>rmdir\<close> and \<open>unlink\<close>. The disk is
  modelled as a tree: a file with its content, or a directory with its entries in the
  order \<open>readdir\<close> lists them. The whole filesystem is the node of \<open>/\<close>. The backend only
  passes results of \<open>path.resolve\<close> and of \<open>path.dirname\<close> on them, which have no \<open>.\<close> or
  \<open>..\<close> segment, so a path is followed segment by segment. Failures are the error codes of
  the operating system. Permissions, symbolic links and the limits of the operating
  system on the length of a name or of a path are not modelled: a name may be of any
  length.
\<close>

datatype node = File string | Dir "(string \<times> node) list"

datatype errno = ENOENT | ENOTDIR | EISDIR | EEXIST | ENOTEMPTY | EBUSY

fun isDirectory :: "node \<Rightarrow> bool" where
  "isDirectory (Dir _) = True"
| "isDirectory (File _) = False"

fun lookup :: "node \<Rightarrow> string list \<Rightarrow> errno + node" where
  "lookup n [] = Inr n"
| "lookup (File _) (s # ss) = Inl ENOTDIR"
| "lookup (Dir es) (s # ss) =
     (case map_of es s of None \<Rightarrow> Inl ENOENT | Some c \<Rightarrow> lookup c ss)"

text \<open>\<open>mkdir -p\<close>: every missing directory on the way is created; a file on the way fails.\<close>

fun mkdirs :: "node \<Rightarrow> string list \<Rightarrow> errno + node" where
  "mkdirs (Dir es) [] = Inr (Dir es)"
| "mkdirs (File c) [] = Inl EEXIST"
| "mkdirs (File c) (s # ss) = Inl ENOTDIR"
| "mkdirs (Dir es) (s # ss) =
     (case mkdirs (case map_of es s of None \<Rightarrow> Dir [] | Some c \<Rightarrow> c) ss of
        Inl e \<Rightarrow> Inl e
      | Inr c' \<Rightarrow> Inr (Dir (AList.update s c' es)))"

fun writeAt :: "node \<Rightarrow> string list \<Rightarrow> string \<Rightarrow> errno + node" where
  "writeAt (File _) [] content = Inr (File content)"
| "writeAt (Dir _) [] content = Inl EISDIR"
| "writeAt (File _) (s # ss) content = Inl ENOTDIR"
| "writeAt (Dir es) (s # ss) content =
     (case map_of es s of
        None \<Rightarrow>
          if ss = [] then Inr (Dir (AList.update s (File content) es)) else Inl ENOENT
      | Some c \<Rightarrow>
          (case writeAt c ss content of
             Inl e \<Rightarrow> Inl e
           | Inr c' \<Rightarrow> Inr (Dir (AList.update s c' es))))"

text \<open>
  Removing the entry at a path; \<open>check\<close> looks at the node to remove and may refuse with
  an error code.
\<close>

fun removeAt :: "(node \<Rightarrow> errno option) \<Rightarrow> node \<Rightarrow> string list \<Rightarrow> errno + node" where
  "removeAt check n [] = Inl EBUSY"
| "removeAt check (File _) (s # ss) = Inl ENOTDIR"
| "removeAt check (Dir es) (s # ss) =
     (case map_of es s of
        None \<Rightarrow> Inl ENOENT
      | Some c \<Rightarrow>
          if ss = [] then
            (case check c of
               Some e \<Rightarrow> Inl e
             | None \<Rightarrow> Inr (Dir (AList.delete s es)))
          else
            (case removeAt check c ss of
               Inl e \<Rightarrow> Inl e
             | Inr c' \<Rightarrow> Inr (Dir (AList.update s c' es))))"

text \<open>
  \<open>unlink\<close> removes a file and refuses a directory. \<open>rmdir\<close> removes a directory and
  refuses a file; it refuses a directory that has entries unless \<open>recursive\<close> is set,
  and then removes it with all that is below it.
\<close>

fun unlinkCheck :: "node \<Rightarrow> errno option" where
  "unlinkCheck (File _) = None"
| "unlinkCheck (Dir _) = Some EISDIR"

fun rmdirCheck :: "bool \<Rightarrow> node \<Rightarrow> errno option" where
  "rmdirCheck recursive (File _) = Some ENOTDIR"
| "rmdirCheck recursive (Dir es) =
     (if es = [] \<or> recursive then None else Some ENOTEMPTY)"

text \<open>What the backend catches: an \<open>Error\<close> with its message, or a filesystem error with its code.\<close>

datatype exn = Error string | FsError errno | TypeError string

text \<open>
  Node.js rejects a path that holds a null byte with the \<open>TypeError\<close>
  \<open>ERR_INVALID_ARG_VALUE\<close>, before it asks the operating system.
\<close>

definition hasNullByte :: "string \<Rightarrow> bool" where
  "hasNullByte p \<longleftrightarrow> CHR 0x00 \<in> set p"

definition fs_stat :: "node \<Rightarrow> string \<Rightarrow> exn + node" where
  "fs_stat disk p =
     (if hasNullByte p then Inl (TypeError ''ERR_INVALID_ARG_VALUE'')
      else case lookup disk (segments p) of Inl e \<Rightarrow> Inl (FsError e) | Inr n \<Rightarrow> Inr n)"

definition fs_mkdir_recursive :: "node \<Rightarrow> string \<Rightarrow> exn + node" where
  "fs_mkdir_recursive disk p =
     (if hasNullByte p then Inl (TypeError ''ERR_INVALID_ARG_VALUE'')
      else case mkdirs disk (segments p) of Inl e \<Rightarrow> Inl (FsError e) | Inr d \<Rightarrow> Inr d)"

text \<open>
  \<open>fs.writeFile(p, data, 'utf8')\<close>. Data that is neither a string nor an array is
  rejected with the \<open>TypeError\<close> \<open>ERR_INVALID_ARG_TYPE\<close> before the file is opened. The file
  is then opened for writing, which creates it or empties it. A string is written whole;
  an array is written element by element, and an element that is not a string is taken
  to be rejected with a \<open>TypeError\<close>, as a number, a boolean or \<open>null\<close> is, after the
  elements before it were written. The result is the disk after the call, and the error
  when the call throws.
\<close>

fun writeChunks :: "string \<Rightarrow> js_value list \<Rightarrow> string \<times> exn option" where
  "writeChunks written [] = (written, None)"
| "writeChunks written (Str s # chunks) = writeChunks (written @ s) chunks"
| "writeChunks written (_ # chunks) = (written, Some (TypeError ''ERR_INVALID_ARG_TYPE''))"

definition writeOpened :: "node \<Rightarrow> string \<Rightarrow> js_value list \<Rightarrow> node \<times> exn option" where
  "writeOpened disk p chunks =
     (if hasNullByte p then (disk, Some (TypeError ''ERR_INVALID_ARG_VALUE''))
      else case writeChunks [] chunks of
        (written, thrown) \<Rightarrow>
          (case writeAt disk (segments p) written of
             Inl e \<Rightarrow> (disk, Some (FsError e))
           | Inr d \<Rightarrow> (d, thrown)))"

definition fs_writeFile :: "node \<Rightarrow> string \<Rightarrow> js_value \<Rightarrow> node \<times> exn option" where
  "fs_writeFile disk p data =
     (case data of
        Str content \<Rightarrow> writeOpened disk p [Str content]
      | Arr chunks \<Rightarrow> writeOpened disk p chunks
      | _ \<Rightarrow> (disk, Some (TypeError ''ERR_INVALID_ARG_TYPE'')))"

text \<open>\<open>fs.readdir(p, { withFileTypes: true })\<close>: the entries, each with its name and its node.\<close>

definition fs_readdir :: "node \<Rightarrow> string \<Rightarrow> exn + (string \<times> node) list" where
  "fs_readdir disk p =
     (if hasNullByte p then Inl (TypeError ''ERR_INVALID_ARG_VALUE'')
      else case lookup disk (segments p) of
        Inl e \<Rightarrow> Inl (FsError e)
      | Inr (File _) \<Rightarrow> Inl (FsError ENOTDIR)
      | Inr (Dir es) \<Rightarrow> Inr es)"

definition fs_rmdir :: "node \<Rightarrow> string \<Rightarrow> bool \<Rightarrow> exn + node" where
  "fs_rmdir disk p recursive =
     (if hasNullByte p then Inl (TypeError ''ERR_INVALID_ARG_VALUE'')
      else case removeAt (rmdirCheck recursive) disk (segments p) of
        Inl e \<Rightarrow> Inl (FsError e)
      | Inr d \<Rightarrow> Inr d)"

definition fs_unlink :: "node \<Rightarrow> string \<Rightarrow> exn + node" where
  "fs_unlink disk p =
     (if hasNullByte p then Inl (TypeError ''ERR_INVALID_ARG_VALUE'')
      else case removeAt unlinkCheck disk (segments p) of
        Inl e \<Rightarrow> Inl (FsError e)
      | Inr d \<Rightarrow> Inr d)"

text \<open>
  \<open>error.message\<close>; the message of a filesystem error and of a \<open>TypeError\<close> is abridged
  to its code.
\<close>

fun errno_code :: "errno \<Rightarrow> string" where
  "errno_code ENOENT = ''ENOENT''"
| "errno_code ENOTDIR = ''ENOTDIR''"
| "errno_code EISDIR = ''EISDIR''"
| "errno_code EEXIST = ''EEXIST''"
| "errno_code ENOTEMPTY = ''ENOTEMPTY''"
| "errno_code EBUSY = ''EBUSY''"

fun exn_message :: "exn \<Rightarrow> string" where
  "exn_message (Error m) = m"
| "exn_message (FsError e) = errno_code e"
| "exn_message (TypeError m) = m"

text \<open>\<open>error.code === 'ENOENT'\<close>\<close>

fun isENOENT :: "exn \<Rightarrow> bool" where
  "isENOENT (FsError e) = (e = ENOENT)"
| "isENOENT _ = False"

section \<open>The change notifier\<close>

datatype ready_state = CONNECTING | OPEN | CLOSING | CLOSED

text \<open>The object that \<open>broadcastChange\<close> serializes and sends.\<close>

record file_change =
  msg_type :: string
  msg_collection :: string
  msg_changeType :: string
  msg_path :: string
  msg_timestamp :: string

text \<open>
  A WebSocket of the \<open>clients\<close> set: its identity, its \<open>readyState\<close>, the \<open>collection\<close>
  property a subscribe message sets on it, and the messages \<open>send\<close> has put on it.
\<close>

record websocket =
  ws_id :: nat
  readyState :: ready_state
  collection :: js_value
  sent :: "file_change list"

text \<open>
  The state of the server: the disk, the \<open>clients\<close> set in insertion order, and the
  messages that \<open>broadcastChange\<close> has logged with \<open>Broadcasting message\<close>.
\<close>

record server =
  disk :: node
  clients :: "websocket list"
  broadcasts :: "file_change list"

definition send :: "file_change \<Rightarrow> websocket \<Rightarrow> websocket" where
  "send message client = client\<lparr>sent := sent client @ [message]\<rparr>"

text \<open>
  The message of \<open>broadcastChange\<close>; \<open>now\<close> is \<open>new Date().toISOString()\<close> at the
  call.
\<close>

definition changeMessage :: "string \<Rightarrow> string \<Rightarrow> string \<Rightarrow> string \<Rightarrow> file_change" where
  "changeMessage coll changeType p now =
     \<lparr>msg_type = ''file_change'', msg_collection = coll, msg_changeType = changeType,
      msg_path = p, msg_timestamp = now\<rparr>"

definition broadcastChange ::
  "string \<Rightarrow> string \<Rightarrow> string \<Rightarrow> string \<Rightarrow> server \<Rightarrow> server" where
  "broadcastChange coll changeType p now st =
     (let message = changeMessage coll changeType p now
      in st\<lparr>broadcasts := broadcasts st @ [message],
            clients := map (\<lambda>client. if readyState client = OPEN then send message client
                                      else client) (clients st)\<rparr>)"

text \<open>\<open>wss.on('connection')\<close>: the new socket joins the set; a set holds a member once.\<close>

definition on_connection :: "websocket \<Rightarrow> server \<Rightarrow> server" where
  "on_connection ws st =
     (if ws_id ws \<in> ws_id ` set (clients st) then st
      else st\<lparr>clients := clients st @ [ws]\<rparr>)"

text \<open>
  \<open>ws.on('message')\<close>: \<open>None\<close> is a message that \<open>JSON.parse\<close> rejects, \<open>Some (t, c)\<close> one
  with the properties \<open>type\<close> and \<open>collection\<close>.
\<close>

definition on_message :: "nat \<Rightarrow> (js_value \<times> js_value) option \<Rightarrow> server \<Rightarrow> server" where
  "on_message wsid message st =
     (case message of
        None \<Rightarrow> st
      | Some (t, c) \<Rightarrow>
          if t = Str ''subscribe'' \<and> truthy c then
            st\<lparr>clients := map (\<lambda>client. if ws_id client = wsid
                                           then client\<lparr>collection := c\<rparr> else client)
                                (clients st)\<rparr>
          else st)"

text \<open>\<open>ws.on('close')\<close> and \<open>ws.on('error')\<close>: \<open>clients.delete(ws)\<close>\<close>

definition on_close :: "nat \<Rightarrow> server \<Rightarrow> server" where
  "on_close wsid st = st\<lparr>clients := filter (\<lambda>client. ws_id client \<noteq> wsid) (clients st)\<rparr>"

section \<open>The tree builder\<close>

text \<open>
  \<open>a.localeCompare(b, undefined, { sensitivity: 'base' })\<close> compares in the collation
  order of the runtime's locale and ignores case. The collation order is a parameter,
  any comparator on strings; the letters \<open>A\<close> to \<open>Z\<close> are folded before it is asked.
\<close>

definition toLowerCase :: "char \<Rightarrow> char" where
  "toLowerCase c =
     (let n = of_char c :: nat in if 65 \<le> n \<and> n \<le> 90 then char_of (n + 32) else c)"

definition localeCompare_base :: "string comparator \<Rightarrow> string comparator" where
  "localeCompare_base collation = key (map toLowerCase) collation"

text \<open>The comparison function given to \<open>sort\<close>, on directory entries.\<close>

definition byName :: "string comparator \<Rightarrow> (string \<times> node) comparator" where
  "byName collation = key fst (localeCompare_base collation)"

definition toApiPath :: "environment \<Rightarrow> string \<Rightarrow> string" where
  "toApiPath env relativePath =
     (let normalized = join_slash (segments relativePath)
      in if normalized \<noteq> [] then slash # ROOT_NAME env @ slash # normalized
         else slash # ROOT_NAME env)"

text \<open>An item of the tree: an object with \<open>path\<close> and \<open>name\<close>, and \<open>children\<close> for a folder.\<close>

datatype tree_item =
    FileItem string string
  | FolderItem string string "tree_item list"

fun item_name :: "tree_item \<Rightarrow> string" where
  "item_name (FileItem p n) = n"
| "item_name (FolderItem p n cs) = n"

text \<open>
  The body of \<open>buildFileTree\<close> after \<open>readdir\<close>: \<open>Array.prototype.sort\<close> is a stable sort,
  the loop skips the hidden entries and pushes one item for each other entry. The
  recursive call reads the directory \<open>path.join(currentDir, entry.name)\<close>, whose entries
  are those of the entry's node.
\<close>

function buildItems ::
  "string comparator \<Rightarrow> environment \<Rightarrow> string \<Rightarrow> (string \<times> node) list \<Rightarrow> tree_item list" where
  "buildItems collation env relativeDir dirEntries =
     map (\<lambda>entry.
            let relativePath =
                  (if relativeDir \<noteq> [] then path_join [relativeDir, fst entry] else fst entry);
                apiPath = toApiPath env relativePath
            in (case snd entry of
                  Dir es \<Rightarrow>
                    FolderItem apiPath (fst entry) (buildItems collation env relativePath es)
                | File _ \<Rightarrow> FileItem apiPath (fst entry)))
         (filter (\<lambda>entry. \<not> startsWith (fst entry) ''.'')
            (Sorting_Algorithms.sort (byName collation) dirEntries))"
  by pat_completeness auto
termination
proof (relation "measure (\<lambda>(collation, env, relativeDir, dirEntries).
                   size_list (size_prod (\<lambda>_. 0) size) dirEntries)", goal_cases)
  case 1
  show ?case by simp
next
  case (2 collation env relativeDir dirEntries entry relativePath apiPath es)
  then have "entry \<in> set dirEntries" by simp
  then have "size_prod (\<lambda>_. 0) size entry \<le> size_list (size_prod (\<lambda>_. 0) size) dirEntries"
    by (rule size_list_estimation') simp
  moreover have "size_list (size_prod (\<lambda>_. 0) size) es < size_prod (\<lambda>_. 0) size entry"
    using 2(4) by (cases entry) simp
  ultimately show ?case by simp
qed

declare buildItems.simps [simp del]

text \<open>
  For stating properties of a tree: the children of an item, none for a file, and the
  items of a tree at every depth, the item itself first.
\<close>

fun item_children :: "tree_item \<Rightarrow> tree_item list" where
  "item_children (FileItem p n) = []"
| "item_children (FolderItem p n cs) = cs"

fun nodes :: "tree_item \<Rightarrow> tree_item list" where
  "nodes (FileItem p n) = [FileItem p n]"
| "nodes (FolderItem p n cs) = FolderItem p n cs # concat (map nodes cs)"

definition buildFileTree ::
  "string comparator \<Rightarrow> environment \<Rightarrow> node \<Rightarrow> string \<Rightarrow> string \<Rightarrow> exn + tree_item list" where
  "buildFileTree collation env dsk currentDir relativeDir =
     (case fs_readdir dsk currentDir of
        Inl ex \<Rightarrow> Inl ex
      | Inr dirEntries \<Rightarrow> Inr (buildItems collation env relativeDir dirEntries))"

section \<open>The routes\<close>

text \<open>
  A route takes the request and the state of the server and gives the response and the
  new state. A \<open>throw\<close> inside the \<open>try\<close> of a route, from the resolver or from the
  filesystem, reaches its \<open>catch\<close>, which answers 500; what was written before stays.
\<close>

datatype json =
    JString string
  | JBool bool
  | JObject "(string \<times> json) list"
  | JArray "json list"

record response =
  status :: nat
  body :: json

definition respond :: "nat \<Rightarrow> (string \<times> json) list \<Rightarrow> response" where
  "respond code props = \<lparr>status = code, body = JObject props\<rparr>"

definition failure :: "string \<Rightarrow> exn \<Rightarrow> response" where
  "failure label ex =
     respond 500 [(''error'', JString label), (''details'', JString (exn_message ex))]"

text \<open>The requests with a JSON body (\<open>req.is('application/json')\<close>, \<open>req.body\<close>).\<close>

record body_request =
  isJson :: bool
  body_path :: js_value
  body_markdown :: js_value

text \<open>The requests with a query string (\<open>req.query.path\<close>, \<open>req.query.recursive\<close>).\<close>

record query_request =
  query_path :: js_value
  query_recursive :: js_value

text \<open>\<open>Array.isArray(v) ? v[0] : v\<close>\<close>

fun firstIfArray :: "js_value \<Rightarrow> js_value" where
  "firstIfArray (Arr []) = Undefined"
| "firstIfArray (Arr (v # _)) = v"
| "firstIfArray v = v"

text \<open>\<open>path.basename(p)\<close>: the last segment.\<close>

definition path_basename :: "string \<Rightarrow> string" where
  "path_basename p = (case segments p of [] \<Rightarrow> [] | segs \<Rightarrow> last segs)"

text \<open>\<open>app.post('/markdown')\<close>\<close>

definition post_markdown ::
  "environment \<Rightarrow> string \<Rightarrow> body_request \<Rightarrow> server \<Rightarrow> response \<times> server" where
  "post_markdown env now req st =
     (if \<not> isJson req then
        (respond 400 [(''error'', JString ''Invalid content type. Expected application/json'')], st)
      else if \<not> truthy (body_path req) then
        (respond 400
           [(''error'', JString ''path is required. Include \"path\" field in JSON body'')], st)
      else
        (case resolveFsPathFromApiPath env (body_path req) of
           Throws m \<Rightarrow> (failure ''Failed to save markdown file'' (Error m), st)
         | Null \<Rightarrow>
             (respond 400
                [(''error'', JString
                   ''Invalid path provided. Ensure the \"path\" field contains a valid value'')],
              st)
         | Resolved prep fsPath \<Rightarrow>
             (case (case fs_stat (disk st) fsPath of
                      Inr _ \<Rightarrow> Inr True
                    | Inl ex \<Rightarrow> if \<not> isENOENT ex then Inl ex else Inr False) of
                Inl ex \<Rightarrow> (failure ''Failed to save markdown file'' ex, st)
              | Inr isUpdate \<Rightarrow>
                  (case fs_mkdir_recursive (disk st) (path_dirname fsPath) of
                     Inl ex \<Rightarrow> (failure ''Failed to save markdown file'' ex, st)
                   | Inr d1 \<Rightarrow>
                       (case fs_writeFile d1 fsPath (body_markdown req) of
                          (d2, Some ex) \<Rightarrow>
                            (failure ''Failed to save markdown file'' ex, st\<lparr>disk := d2\<rparr>)
                        | (d2, None) \<Rightarrow>
                            (respond (if isUpdate then 200 else 201)
                               [(''message'', JString
                                   (''Markdown file '' @
                                    (if isUpdate then ''updated'' else ''created'') @
                                    '' successfully'')),
                                (''filename'', JString (normalizedPath prep)),
                                (''fullPath'', JString fsPath)],
                             broadcastChange (ROOT_NAME env)
                               (if isUpdate then ''updated'' else ''created'')
                               (normalizedPath prep) now (st\<lparr>disk := d2\<rparr>)))))))"

text \<open>\<open>app.put('/markdown')\<close>\<close>

definition put_markdown ::
  "environment \<Rightarrow> string \<Rightarrow> body_request \<Rightarrow> server \<Rightarrow> response \<times> server" where
  "put_markdown env now req st =
     (if \<not> isJson req then
        (respond 400 [(''error'', JString ''Invalid content type. Expected application/json'')], st)
      else if \<not> truthy (body_path req) then
        (respond 400
           [(''error'', JString ''path is required. Include \"path\" field in JSON body'')], st)
      else
        (case resolveFsPathFromApiPath env (body_path req) of
           Throws m \<Rightarrow> (failure ''Failed to update markdown file'' (Error m), st)
         | Null \<Rightarrow>
             (respond 400
                [(''error'', JString
                   ''Invalid path provided. Ensure the \"path\" field contains a valid value'')],
              st)
         | Resolved prep fsPath \<Rightarrow>
             (case fs_stat (disk st) fsPath of
                Inl ex \<Rightarrow>
                  if isENOENT ex then (respond 404 [(''error'', JString ''File not found'')], st)
                  else (failure ''Failed to update markdown file'' ex, st)
              | Inr _ \<Rightarrow>
                  (case fs_writeFile (disk st) fsPath (body_markdown req) of
                     (d, Some ex) \<Rightarrow>
                       (failure ''Failed to update markdown file'' ex, st\<lparr>disk := d\<rparr>)
                   | (d, None) \<Rightarrow>
                       (respond 200
                          [(''message'', JString ''Markdown file updated successfully''),
                           (''filename'', JString (normalizedPath prep)),
                           (''fullPath'', JString fsPath)],
                        broadcastChange (ROOT_NAME env) ''updated''
                          (normalizedPath prep) now (st\<lparr>disk := d\<rparr>))))))"

text \<open>\<open>app.post('/markdown/folder')\<close>\<close>

definition post_markdown_folder ::
  "environment \<Rightarrow> string \<Rightarrow> body_request \<Rightarrow> server \<Rightarrow> response \<times> server" where
  "post_markdown_folder env now req st =
     (if \<not> isJson req then
        (respond 400 [(''error'', JString ''Invalid content type. Expected application/json'')], st)
      else if \<not> truthy (body_path req) then
        (respond 400
           [(''error'', JString ''path is required. Include \"path\" field in JSON body'')], st)
      else
        (case resolveFsPathFromApiPath env (body_path req) of
           Throws m \<Rightarrow> (failure ''Failed to create directory'' (Error m), st)
         | Null \<Rightarrow>
             (respond 400
                [(''error'', JString
                   ''Invalid path provided. Ensure the \"path\" field contains a valid value'')],
              st)
         | Resolved prep fsPath \<Rightarrow>
             (case fs_stat (disk st) fsPath of
                Inr stats \<Rightarrow>
                  if isDirectory stats then
                    (respond 409
                       [(''error'', JString ''Directory already exists''),
                        (''path'', JString (normalizedPath prep))], st)
                  else
                    (respond 409
                       [(''error'', JString ''A file with the same name already exists''),
                        (''path'', JString (normalizedPath prep))], st)
              | Inl ex \<Rightarrow>
                  if \<not> isENOENT ex then (failure ''Failed to create directory'' ex, st)
                  else
                    (case fs_mkdir_recursive (disk st) fsPath of
                       Inl ex' \<Rightarrow> (failure ''Failed to create directory'' ex', st)
                     | Inr d \<Rightarrow>
                         (respond 201
                            [(''message'', JString ''Directory created successfully''),
                             (''path'', JString (normalizedPath prep)),
                             (''fullPath'', JString fsPath)],
                          broadcastChange (ROOT_NAME env) ''created''
                            (normalizedPath prep) now (st\<lparr>disk := d\<rparr>))))))"

text \<open>\<open>app.delete('/markdown')\<close>\<close>

definition delete_markdown ::
  "environment \<Rightarrow> string \<Rightarrow> query_request \<Rightarrow> server \<Rightarrow> response \<times> server" where
  "delete_markdown env now req st =
     (let rawPath = firstIfArray (query_path req);
          recursive = (query_recursive req = Str ''true'')
      in
      if \<not> truthy rawPath then
        (respond 400 [(''error'', JString ''Path parameter is required'')], st)
      else
        (case resolveFsPathFromApiPath env rawPath of
           Throws m \<Rightarrow> (failure ''Failed to delete item'' (Error m), st)
         | Null \<Rightarrow> (respond 400 [(''error'', JString ''Invalid path'')], st)
         | Resolved preparedPath target \<Rightarrow>
             (case fs_stat (disk st) target of
                Inl ex \<Rightarrow>
                  if isENOENT ex then
                    (respond 404
                       [(''error'', JString ''Path not found''),
                        (''details'', JString ''The requested file or directory does not exist'')],
                     st)
                  else (failure ''Failed to delete item'' ex, st)
              | Inr stats \<Rightarrow>
                  if target = volResolved env then
                    (respond 403
                       [(''error'', JString ''Cannot delete root directory''),
                        (''details'', JString
                           ''Deletion of the root volume directory is not allowed'')],
                     st)
                  else if isDirectory stats then
                    (let removeDirectory =
                           (case fs_rmdir (disk st) target recursive of
                              Inl ex \<Rightarrow> (failure ''Failed to delete item'' ex, st)
                            | Inr d \<Rightarrow>
                                (respond 200
                                   [(''message'', JString ''Directory deleted successfully''),
                                    (''path'', JString (normalizedPath preparedPath)),
                                    (''type'', JString ''directory''),
                                    (''recursive'', JBool recursive)],
                                 broadcastChange (ROOT_NAME env) ''deleted''
                                   (normalizedPath preparedPath) now (st\<lparr>disk := d\<rparr>)))
                     in
                     if \<not> recursive then
                       (case fs_readdir (disk st) target of
                          Inl ex \<Rightarrow> (failure ''Failed to delete item'' ex, st)
                        | Inr dirEntries \<Rightarrow>
                            if length dirEntries > 0 then
                              (respond 400
                                 [(''error'', JString ''Directory not empty''),
                                  (''details'', JString
                                     ''Use recursive=true to delete non-empty directories'')],
                               st)
                            else removeDirectory)
                     else removeDirectory)
                  else
                    (case fs_unlink (disk st) target of
                       Inl ex \<Rightarrow> (failure ''Failed to delete item'' ex, st)
                     | Inr d \<Rightarrow>
                         (respond 200
                            [(''message'', JString ''File deleted successfully''),
                             (''path'', JString (normalizedPath preparedPath)),
                             (''name'', JString (path_basename target)),
                             (''type'', JString ''file'')],
                          broadcastChange (ROOT_NAME env) ''deleted''
                            (normalizedPath preparedPath) now (st\<lparr>disk := d\<rparr>))))))"

text \<open>
  \<open>app.get('/markdown/names')\<close>. It reads and does not change the state, so it only gives
  the response.
\<close>

definition get_markdown_names ::
  "string comparator \<Rightarrow> environment \<Rightarrow> query_request \<Rightarrow> server \<Rightarrow> response" where
  "get_markdown_names collation env req st =
     (let rawPath = firstIfArray (query_path req);
          listing = (\<lambda>target.
            (case fs_stat (disk st) target of
               Inl ex \<Rightarrow>
                 if isENOENT ex then
                   respond 404
                     [(''error'', JString ''Path not found''),
                      (''details'', JString ''The requested directory does not exist'')]
                 else failure ''Failed to fetch names'' ex
             | Inr stats \<Rightarrow>
                 if \<not> isDirectory stats then
                   respond 400 [(''error'', JString ''Path must point to a directory'')]
                 else
                   (case fs_readdir (disk st) target of
                      Inl ex \<Rightarrow> failure ''Failed to fetch names'' ex
                    | Inr dirEntries \<Rightarrow>
                        let sortedEntries =
                              Sorting_Algorithms.sort (byName collation)
                                (filter (\<lambda>entry. \<not> startsWith (fst entry) ''.'') dirEntries);
                            names = map (\<lambda>entry. JObject [(''name'', JString (fst entry))])
                                      sortedEntries
                        in \<lparr>status = 200, body = JArray names\<rparr>)))
      in
      if truthy rawPath then
        (case resolveFsPathFromApiPath env rawPath of
           Throws m \<Rightarrow> failure ''Failed to fetch names'' (Error m)
         | Null \<Rightarrow> respond 400 [(''error'', JString ''Invalid path'')]
         | Resolved prep fsPath \<Rightarrow> listing fsPath)
      else listing (volResolved env))"

section \<open>Shapes of paths\<close>

text \<open>
  Predicates for stating what the resolver returns. A segment is a non-empty string
  without a slash. A list of segments has its parent references in front when no \<open>..\<close>
  follows another segment. A canonical absolute path is a slash followed by its segments
  joined by slashes, none of them \<open>.\<close> or \<open>..\<close>; a canonical relative path is \<open>.\<close>, or its
  segments joined by slashes, none of them \<open>.\<close> and every \<open>..\<close> in front.
\<close>

definition isSegment :: "string \<Rightarrow> bool" where
  "isSegment c \<longleftrightarrow> c \<noteq> [] \<and> slash \<notin> set c"

definition leadingParents :: "string list \<Rightarrow> bool" where
  "leadingParents cs \<longleftrightarrow> ''..'' \<notin> set (dropWhile (\<lambda>c. c = ''..'') cs)"

definition canonicalAbsolute :: "string \<Rightarrow> bool" where
  "canonicalAbsolute p \<longleftrightarrow>
     p = slash # join_slash (segments p) \<and>
     ''.'' \<notin> set (segments p) \<and> ''..'' \<notin> set (segments p)"

definition canonicalRelative :: "string \<Rightarrow> bool" where
  "canonicalRelative p \<longleftrightarrow>
     p = ''.'' \<or>
     (segments p \<noteq> [] \<and> p = join_slash (segments p) \<and> ''.'' \<notin> set (segments p) \<and>
      leadingParents (segments p))"

text \<open>The value \<open>cleaned\<close> of \<open>prepareOperationPath\<close>, as a function of \<open>trimmed\<close>.\<close>

definition cleanedOf :: "string \<Rightarrow> string" where
  "cleanedOf trimmed =
     (let normalizedSlashes = collapseSlashes (replaceBackslashes trimmed)
      in if normalizedSlashes \<noteq> ''/'' \<and> endsWith normalizedSlashes ''/''
         then butlast normalizedSlashes else normalizedSlashes)"

section \<open>Examples\<close>

text \<open>
  A server started in \<open>/srv/app\<close> with the defaults: the storage root is
  \<open>/srv/app/Haptic\<close> and the root name is \<open>Haptic\<close>.
\<close>

definition exampleEnv :: environment where
  "exampleEnv = \<lparr>env_VOLUME_PATH = None, env_ROOT_NAME = None, process_cwd = ''/srv/app''\<rparr>"

definition exampleDisk :: node where
  "exampleDisk =
     Dir [(''srv'', Dir [(''app'', Dir [(''Haptic'',
       Dir [(''b.md'', File ''bee''),
            (''.git'', Dir [(''config'', File [])]),
            (''Notes'', Dir [(''z.md'', File ''1''), (''A.md'', File ''2''),
                             (''.hidden'', File ''3'')]),
            (''a.md'', File ''hello''),
            (''dots'', Dir [(''.keep'', File [])]),
            (''empty'', Dir [])])])])]"

definition exampleClients :: "websocket list" where
  "exampleClients =
     [\<lparr>ws_id = 1, readyState = OPEN, collection = Str ''Other'', sent = []\<rparr>,
      \<lparr>ws_id = 2, readyState = CLOSED, collection = Str ''Haptic'', sent = []\<rparr>,
      \<lparr>ws_id = 3, readyState = OPEN, collection = Undefined, sent = []\<rparr>]"

definition exampleServer :: server where
  "exampleServer = \<lparr>disk = exampleDisk, clients = exampleClients, broadcasts = []\<rparr>"

text \<open>A collation order for the examples: strings compared code unit by code unit.\<close>

definition exampleCollation :: "string comparator" where
  "exampleCollation = default"

section \<open>Splitting and joining\<close>

lemma split_slash_not_Nil [simp]: "split_slash s \<noteq> []"
  by (induction s) (auto split: list.splits)

lemma split_slash_append: "split_slash (a @ slash # b) = split_slash a @ split_slash b"
  by (induction a) (auto split: list.splits)

lemma split_slash_no_slash: "slash \<notin> set s \<Longrightarrow> split_slash s = [s]"
  by (induction s) (auto split: list.splits)

lemma split_slash_pieces: "c \<in> set (split_slash s) \<Longrightarrow> slash \<notin> set c"
  by (induction s arbitrary: c) (auto split: list.splits if_splits)

lemma split_slash_chars: "c \<in> set (split_slash s) \<Longrightarrow> set c \<subseteq> set s"
proof (induction s arbitrary: c)
  case Nil
  then show ?case by simp
next
  case (Cons a s)
  show ?case
  proof (cases "a = slash")
    case True
    with Cons show ?thesis by auto
  next
    case False
    obtain p ps where ps: "split_slash s = p # ps"
      by (cases "split_slash s") simp_all
    with Cons.prems False have "c = a # p \<or> c \<in> set ps" by simp
    moreover have "set p \<subseteq> set s" using Cons.IH [of p] ps by simp
    moreover have "c \<in> set ps \<Longrightarrow> set c \<subseteq> set s" using Cons.IH [of c] ps by simp
    ultimately show ?thesis by auto
  qed
qed

lemma segments_isSegment: "c \<in> set (segments s) \<Longrightarrow> isSegment c"
  by (auto simp: segments_def isSegment_def dest: split_slash_pieces)

lemma segments_chars: "c \<in> set (segments s) \<Longrightarrow> set c \<subseteq> set s"
  by (auto simp: segments_def dest: split_slash_chars)

lemma segments_append: "segments (a @ slash # b) = segments a @ segments b"
  by (simp add: segments_def split_slash_append)

lemma segments_slash_Cons [simp]: "segments (slash # s) = segments s"
  by (simp add: segments_def)

lemma segments_single: "isSegment c \<Longrightarrow> segments c = [c]"
  by (simp add: segments_def isSegment_def split_slash_no_slash)

lemma segments_join: "\<forall>c \<in> set cs. isSegment c \<Longrightarrow> segments (join_slash cs) = cs"
proof (induction cs rule: join_slash.induct)
  case 1
  show ?case by (simp add: segments_def)
next
  case (2 x)
  then show ?case by (simp add: segments_single)
next
  case (3 x y ys)
  then show ?case by (simp add: segments_append segments_single)
qed

lemma join_slash_Nil_iff: "\<forall>c \<in> set cs. c \<noteq> [] \<Longrightarrow> join_slash cs = [] \<longleftrightarrow> cs = []"
  by (induction cs rule: join_slash.induct) auto

lemma hd_join_slash: "cs \<noteq> [] \<Longrightarrow> hd cs \<noteq> [] \<Longrightarrow> hd (join_slash cs) = hd (hd cs)"
  by (induction cs rule: join_slash.induct) auto

lemma last_join_slash:
  "cs \<noteq> [] \<Longrightarrow> \<forall>c \<in> set cs. c \<noteq> [] \<Longrightarrow> last (join_slash cs) = last (last cs)"
proof (induction cs rule: join_slash.induct)
  case (3 x y ys)
  have "join_slash (y # ys) \<noteq> []"
    using 3(3) join_slash_Nil_iff [of "y # ys"] by simp
  with 3 show ?case by simp
qed simp_all

lemma join_slash_chars: "set (join_slash cs) \<subseteq> insert slash (\<Union>c \<in> set cs. set c)"
  by (induction cs rule: join_slash.induct) auto

section \<open>Normalizing segments\<close>

lemma takeWhile_eq_replicate: "takeWhile (\<lambda>c. c = x) cs = replicate (length (takeWhile (\<lambda>c. c = x) cs)) x"
proof -
  have "\<forall>y \<in> set (takeWhile (\<lambda>c. c = x) cs). y = x"
    by (auto dest: set_takeWhileD)
  then show ?thesis by (rule replicate_length_same [symmetric])
qed

lemma dropWhile_replicate_append:
  "dropWhile (\<lambda>c. c = x) (replicate k x @ ds) = dropWhile (\<lambda>c. c = x) ds"
  by (induction k) auto

lemma leadingParents_iff:
  "leadingParents cs \<longleftrightarrow> (\<exists>k ds. cs = replicate k ''..'' @ ds \<and> ''..'' \<notin> set ds)"
proof
  assume "leadingParents cs"
  then have "''..'' \<notin> set (dropWhile (\<lambda>c. c = ''..'') cs)" by (simp add: leadingParents_def)
  moreover have "cs = replicate (length (takeWhile (\<lambda>c. c = ''..'') cs)) ''..'' @ dropWhile (\<lambda>c. c = ''..'') cs"
    by (metis takeWhile_eq_replicate takeWhile_dropWhile_id)
  ultimately show "\<exists>k ds. cs = replicate k ''..'' @ ds \<and> ''..'' \<notin> set ds" by blast
next
  assume "\<exists>k ds. cs = replicate k ''..'' @ ds \<and> ''..'' \<notin> set ds"
  then obtain k ds where cs: "cs = replicate k ''..'' @ ds" and ds: "''..'' \<notin> set ds"
    by blast
  have "set (dropWhile (\<lambda>c. c = ''..'') ds) \<subseteq> set ds" by (auto dest: set_dropWhileD)
  then show "leadingParents cs" using ds by (auto simp: leadingParents_def cs dropWhile_replicate_append)
qed

lemma normalizeStep_set:
  "set (normalizeStep a res seg) \<subseteq> insert ''..'' (insert seg (set res))"
  by (auto simp: normalizeStep_def dest: in_set_butlastD)

lemma normalize_fold_set:
  "set (foldl (normalizeStep a) res segs) \<subseteq> insert ''..'' (set res \<union> set segs)"
proof (induction segs arbitrary: res)
  case Nil
  show ?case by auto
next
  case (Cons s segs)
  show ?case using Cons [of "normalizeStep a res s"] normalizeStep_set [of a res s]
    by auto
qed

lemma normalizeStep_no_dot:
  "''.'' \<notin> set res \<Longrightarrow> ''.'' \<notin> set (normalizeStep a res seg)"
  by (auto simp: normalizeStep_def dest: in_set_butlastD)

lemma normalize_fold_no_dot:
  "''.'' \<notin> set res \<Longrightarrow> ''.'' \<notin> set (foldl (normalizeStep a) res segs)"
  by (induction segs arbitrary: res) (simp_all add: normalizeStep_no_dot)

lemma normalizeStep_no_dotdot:
  "''..'' \<notin> set res \<Longrightarrow> ''..'' \<notin> set (normalizeStep False res seg)"
  by (auto simp: normalizeStep_def dest: in_set_butlastD)

lemma normalize_fold_no_dotdot:
  "''..'' \<notin> set res \<Longrightarrow> ''..'' \<notin> set (foldl (normalizeStep False) res segs)"
  by (induction segs arbitrary: res) (simp_all add: normalizeStep_no_dotdot)

lemma normalizeStep_leadingParents:
  assumes "leadingParents res"
  shows "leadingParents (normalizeStep True res seg)"
proof -
  from assms obtain k cs where res: "res = replicate k ''..'' @ cs" and cs: "''..'' \<notin> set cs"
    by (auto simp: leadingParents_iff)
  consider (dot) "seg = ''.''" | (up) "seg = ''..''" | (other) "seg \<noteq> ''.''" "seg \<noteq> ''..''"
    by blast
  then show ?thesis
  proof cases
    case dot
    then show ?thesis using assms by (simp add: normalizeStep_def)
  next
    case other
    then have "normalizeStep True res seg = replicate k ''..'' @ (cs @ [seg])"
      by (simp add: normalizeStep_def res)
    moreover have "''..'' \<notin> set (cs @ [seg])" using cs other by simp
    ultimately show ?thesis unfolding leadingParents_iff by blast
  next
    case up
    show ?thesis
    proof (cases "cs = []")
      case True
      then have "normalizeStep True res seg = replicate (Suc k) ''..'' @ []"
        using up by (cases k) (simp_all add: normalizeStep_def res replicate_append_same)
      then show ?thesis unfolding leadingParents_iff by (metis empty_iff list.set(1))
    next
      case False
      then have "last res \<noteq> ''..''" using cs res by (metis last_appendR last_in_set)
      then have "normalizeStep True res seg = replicate k ''..'' @ butlast cs"
        using up False by (simp add: normalizeStep_def res butlast_append)
      moreover have "''..'' \<notin> set (butlast cs)" using cs by (auto dest: in_set_butlastD)
      ultimately show ?thesis unfolding leadingParents_iff by blast
    qed
  qed
qed

lemma normalize_fold_leadingParents:
  "leadingParents res \<Longrightarrow> leadingParents (foldl (normalizeStep True) res segs)"
  by (induction segs arbitrary: res) (simp_all add: normalizeStep_leadingParents)

lemma normalize_fold_plain:
  "''.'' \<notin> set cs \<Longrightarrow> ''..'' \<notin> set cs \<Longrightarrow> foldl (normalizeStep a) res cs = res @ cs"
proof (induction cs arbitrary: res)
  case Nil
  show ?case by simp
next
  case (Cons c cs)
  from Cons.prems have c: "c \<noteq> ''.''" "c \<noteq> ''..''" by auto
  then have "normalizeStep a res c = res @ [c]" by (simp add: normalizeStep_def)
  then show ?case using Cons by simp
qed

lemma normalize_fold_parents:
  "foldl (normalizeStep True) (replicate j ''..'') (replicate k ''..'') = replicate (j + k) ''..''"
proof (induction k arbitrary: j)
  case 0
  show ?case by simp
next
  case (Suc k)
  have "normalizeStep True (replicate j ''..'') ''..'' = replicate (Suc j) ''..''"
    by (cases j) (simp_all add: normalizeStep_def replicate_append_same)
  then show ?case using Suc [of "Suc j"] by simp
qed

lemma normalizeSegments_fixed_relative:
  assumes "leadingParents cs" "''.'' \<notin> set cs"
  shows "normalizeSegments True cs = cs"
proof -
  from assms obtain k ds where cs: "cs = replicate k ''..'' @ ds" and ds: "''..'' \<notin> set ds"
    by (auto simp: leadingParents_iff)
  have "''.'' \<notin> set ds" using assms(2) cs by simp
  then show ?thesis
    using normalize_fold_parents [of 0 k] ds
    by (simp add: normalizeSegments_def cs normalize_fold_plain)
qed

lemma normalizeSegments_fixed_absolute:
  "''.'' \<notin> set cs \<Longrightarrow> ''..'' \<notin> set cs \<Longrightarrow> normalizeSegments a cs = cs"
  by (simp add: normalizeSegments_def normalize_fold_plain)

lemma normalizeSegments_no_dot: "''.'' \<notin> set (normalizeSegments a segs)"
  by (simp add: normalizeSegments_def normalize_fold_no_dot)

lemma normalizeSegments_no_dotdot: "''..'' \<notin> set (normalizeSegments False segs)"
  by (simp add: normalizeSegments_def normalize_fold_no_dotdot)

lemma normalizeSegments_leadingParents: "leadingParents (normalizeSegments True segs)"
proof -
  have "leadingParents []" unfolding leadingParents_iff by (metis append_Nil empty_iff list.set(1) replicate_0)
  then show ?thesis by (simp add: normalizeSegments_def normalize_fold_leadingParents)
qed

lemma normalizeSegments_isSegment:
  assumes "\<forall>c \<in> set segs. isSegment c"
  shows "\<forall>c \<in> set (normalizeSegments a segs). isSegment c"
proof
  fix c assume "c \<in> set (normalizeSegments a segs)"
  then have "c = ''..'' \<or> c \<in> set segs"
    using normalize_fold_set [of a "[]" segs] by (auto simp: normalizeSegments_def)
  then show "isSegment c" using assms by (auto simp: isSegment_def slash_def)
qed

lemma normalizeSegments_chars:
  "c \<in> set (normalizeSegments a segs) \<Longrightarrow> c = ''..'' \<or> c \<in> set segs"
  using normalize_fold_set [of a "[]" segs] by (auto simp: normalizeSegments_def)

section \<open>Normalized paths are canonical\<close>

lemma all_segments: "\<forall>c \<in> set (segments p). isSegment c"
  by (simp add: segments_isSegment)

lemma join_segments_not_Nil: "segments p \<noteq> [] \<Longrightarrow> join_slash (segments p) \<noteq> []"
  using join_slash_Nil_iff [of "segments p"] all_segments [of p] by (auto simp: isSegment_def)

lemma hd_join_segments: "\<forall>c \<in> set cs. isSegment c \<Longrightarrow> cs \<noteq> [] \<Longrightarrow> hd (join_slash cs) \<noteq> slash"
proof -
  assume a: "\<forall>c \<in> set cs. isSegment c" and n: "cs \<noteq> []"
  then have s: "isSegment (hd cs)" by simp
  then have "hd (join_slash cs) = hd (hd cs)"
    using n by (intro hd_join_slash) (auto simp: isSegment_def)
  moreover have "hd (hd cs) \<in> set (hd cs)" using s by (simp add: isSegment_def)
  moreover have "slash \<notin> set (hd cs)" using s by (simp add: isSegment_def)
  ultimately show ?thesis by metis
qed

lemma last_join_segments: "\<forall>c \<in> set cs. isSegment c \<Longrightarrow> cs \<noteq> [] \<Longrightarrow> last (join_slash cs) \<noteq> slash"
proof -
  assume a: "\<forall>c \<in> set cs. isSegment c" and n: "cs \<noteq> []"
  then have "last (join_slash cs) = last (last cs)"
    by (intro last_join_slash) (auto simp: isSegment_def)
  moreover have "isSegment (last cs)" using a n by simp
  then have "last (last cs) \<in> set (last cs)" "slash \<notin> set (last cs)"
    by (simp_all add: isSegment_def)
  ultimately show ?thesis by metis
qed

lemma join_not_Nil: "\<forall>c \<in> set cs. isSegment c \<Longrightarrow> cs \<noteq> [] \<Longrightarrow> join_slash cs \<noteq> []"
  using join_slash_Nil_iff [of cs] by (auto simp: isSegment_def)

lemma path_normalize_absolute:
  assumes "hd p = slash" "p \<noteq> []" "last p \<noteq> slash"
  shows "path_normalize p = slash # join_slash (normalizeSegments False (segments p))"
proof -
  have "''/'' = [slash]" by (simp add: slash_def)
  then show ?thesis using assms by (simp add: path_normalize_def normalizeString_def Let_def)
qed

lemma path_normalize_relative:
  assumes "hd p \<noteq> slash" "p \<noteq> []" "last p \<noteq> slash"
  shows "path_normalize p =
     (if normalizeSegments True (segments p) = [] then ''.''
      else join_slash (normalizeSegments True (segments p)))"
proof -
  have "join_slash (normalizeSegments True (segments p)) = [] \<longleftrightarrow> normalizeSegments True (segments p) = []"
    using join_slash_Nil_iff [of "normalizeSegments True (segments p)"]
      normalizeSegments_isSegment [OF all_segments, of True p]
    by (auto simp: isSegment_def)
  then show ?thesis using assms by (auto simp: path_normalize_def normalizeString_def Let_def)
qed

lemma canonicalAbsolute_join:
  assumes "\<forall>c \<in> set cs. isSegment c" "''.'' \<notin> set cs" "''..'' \<notin> set cs"
  shows "canonicalAbsolute (slash # join_slash cs)"
  using assms by (simp add: canonicalAbsolute_def segments_join)

lemma canonicalRelative_join:
  assumes "\<forall>c \<in> set cs. isSegment c" "''.'' \<notin> set cs" "leadingParents cs" "cs \<noteq> []"
  shows "canonicalRelative (join_slash cs)"
  using assms by (simp add: canonicalRelative_def segments_join)

lemma canonical_of_absolute:
  assumes "hd p = slash" "p \<noteq> []" "last p \<noteq> slash"
  shows "canonicalAbsolute (path_normalize p)"
  unfolding path_normalize_absolute [OF assms]
  by (intro canonicalAbsolute_join normalizeSegments_isSegment all_segments
      normalizeSegments_no_dot normalizeSegments_no_dotdot)

lemma canonical_of_relative:
  assumes "hd p \<noteq> slash" "p \<noteq> []" "last p \<noteq> slash"
  shows "canonicalRelative (path_normalize p)"
proof (cases "normalizeSegments True (segments p) = []")
  case True
  then show ?thesis by (simp add: path_normalize_relative [OF assms] canonicalRelative_def)
next
  case False
  then show ?thesis
    unfolding path_normalize_relative [OF assms]
    by (auto intro!: canonicalRelative_join normalizeSegments_isSegment all_segments
      normalizeSegments_no_dot normalizeSegments_leadingParents)
qed

lemma slash_not_dot [simp]: "slash \<noteq> CHR ''.''" "CHR ''.'' \<noteq> slash"
  by (simp_all add: slash_def)

lemma path_normalize_canonicalAbsolute:
  assumes "canonicalAbsolute p"
  shows "path_normalize p = p"
proof (cases "segments p = []")
  case True
  moreover have "p = slash # join_slash (segments p)"
    using assms unfolding canonicalAbsolute_def by blast
  ultimately have "p = ''/''" by (simp add: slash_def)
  moreover have "path_normalize ''/'' = ''/''" by code_simp
  ultimately show ?thesis by simp
next
  case False
  define cs where "cs = segments p"
  have p: "p = slash # join_slash cs" and dots: "''.'' \<notin> set cs" "''..'' \<notin> set cs"
    using assms unfolding canonicalAbsolute_def cs_def by blast+
  have cs: "cs \<noteq> []" "\<forall>c \<in> set cs. isSegment c"
    using False unfolding cs_def by (blast intro: segments_isSegment)+
  have "last p = last (join_slash cs)"
    unfolding p using join_not_Nil [OF cs(2,1)] by simp
  then have l: "last p \<noteq> slash" using last_join_segments [OF cs(2,1)] by simp
  have h: "hd p = slash" "p \<noteq> []" unfolding p by simp_all
  have "normalizeSegments False (segments p) = cs"
    using dots by (simp add: cs_def [symmetric] normalizeSegments_fixed_absolute)
  then show ?thesis unfolding path_normalize_absolute [OF h l] by (simp add: p [symmetric])
qed

lemma path_normalize_dot [simp]: "path_normalize ''.'' = ''.''"
  by code_simp

lemma path_normalize_canonicalRelative:
  assumes "canonicalRelative p"
  shows "path_normalize p = p"
proof (cases "p = ''.''")
  case True
  then show ?thesis by simp
next
  case False
  define cs where "cs = segments p"
  have p: "p = join_slash cs" and d: "''.'' \<notin> set cs" and l: "leadingParents cs"
    and n: "cs \<noteq> []"
    using assms False unfolding canonicalRelative_def cs_def by blast+
  have cs: "cs \<noteq> []" "\<forall>c \<in> set cs. isSegment c"
    using n unfolding cs_def by (blast intro: segments_isSegment)+
  have h: "hd p \<noteq> slash" unfolding p using hd_join_segments [OF cs(2,1)] .
  have e: "p \<noteq> []" unfolding p using join_not_Nil [OF cs(2,1)] .
  have t: "last p \<noteq> slash" unfolding p using last_join_segments [OF cs(2,1)] .
  have "normalizeSegments True (segments p) = cs"
    unfolding cs_def [symmetric] using l d by (rule normalizeSegments_fixed_relative)
  then show ?thesis unfolding path_normalize_relative [OF h e t] using cs(1) by (simp add: p [symmetric])
qed

lemma collapseSlashes_chars: "set (collapseSlashes s) \<subseteq> set s"
  by (induction s rule: collapseSlashes.induct) auto

lemma collapseSlashes_Nil_iff [simp]: "collapseSlashes s = [] \<longleftrightarrow> s = []"
  by (induction s rule: collapseSlashes.induct) auto

lemma collapseSlashes_plain_prefix:
  "slash \<notin> set a \<Longrightarrow> collapseSlashes (a @ b) = a @ collapseSlashes b"
proof (induction a)
  case Nil
  show ?case by simp
next
  case (Cons x a)
  then show ?case by (cases "a @ b") auto
qed

lemma collapseSlashes_slash_Cons:
  "b \<noteq> [] \<Longrightarrow> hd b \<noteq> slash \<Longrightarrow> collapseSlashes (slash # b) = slash # collapseSlashes b"
  by (cases b) auto

lemma collapseSlashes_join:
  "\<forall>c \<in> set cs. isSegment c \<Longrightarrow> collapseSlashes (join_slash cs) = join_slash cs"
proof (induction cs rule: join_slash.induct)
  case 1
  show ?case by simp
next
  case (2 x)
  then show ?case using collapseSlashes_plain_prefix [of x "[]"] by (simp add: isSegment_def)
next
  case (3 x y ys)
  have seg: "\<forall>c \<in> set (y # ys). isSegment c" using 3(2) by simp
  have "collapseSlashes (slash # join_slash (y # ys)) = slash # join_slash (y # ys)"
    using collapseSlashes_slash_Cons [OF join_not_Nil hd_join_segments, OF seg _ seg] 3(1) [OF seg]
    by simp
  moreover have "slash \<notin> set x" using 3(2) by (simp add: isSegment_def)
  ultimately show ?case by (simp add: collapseSlashes_plain_prefix)
qed

lemma slash_not_backslash [simp]: "slash \<noteq> backslash" "backslash \<noteq> slash"
  by (simp_all add: slash_def backslash_def)

lemma replaceBackslashes_free: "backslash \<notin> set (replaceBackslashes s)"
  by (auto simp: replaceBackslashes_def)

lemma replaceBackslashes_id: "backslash \<notin> set s \<Longrightarrow> replaceBackslashes s = s"
  by (induction s) (auto simp: replaceBackslashes_def)

lemma normalizeSegments_charset:
  assumes "c \<in> set (normalizeSegments a segs)"
  shows "set c \<subseteq> insert CHR ''.'' (\<Union>d \<in> set segs. set d)"
  using normalizeSegments_chars [OF assms] by auto

lemma normalizeString_chars:
  "set (normalizeString p a) \<subseteq> insert slash (insert CHR ''.'' (set p))"
proof
  fix x assume "x \<in> set (normalizeString p a)"
  then have "x = slash \<or> (\<exists>c \<in> set (normalizeSegments a (segments p)). x \<in> set c)"
    using join_slash_chars [of "normalizeSegments a (segments p)"]
    by (auto simp: normalizeString_def)
  then show "x \<in> insert slash (insert CHR ''.'' (set p))"
    using normalizeSegments_charset [of _ a "segments p"] segments_chars [of _ p] by blast
qed

lemma path_normalize_chars:
  "set (path_normalize p) \<subseteq> insert slash (insert CHR ''.'' (set p))"
proof -
  have "''/'' = [slash]" by (simp add: slash_def)
  then show ?thesis
    using normalizeString_chars [of p "hd p \<noteq> slash"]
    by (auto simp: path_normalize_def Let_def)
qed

lemma hasWindowsDrive_join:
  assumes "\<forall>c \<in> set cs. isSegment c" "cs \<noteq> []"
  shows "hasWindowsDrive (join_slash cs) = hasWindowsDrive (hd cs)"
proof (cases cs)
  case Nil
  with assms show ?thesis by simp
next
  case (Cons c rest)
  show ?thesis
  proof (cases rest)
    case Nil
    with Cons show ?thesis by simp
  next
    case (Cons c' rest')
    have c: "c \<noteq> []" using assms(1) \<open>cs = c # rest\<close> by (simp add: isSegment_def)
    show ?thesis
    proof (cases c)
      case Nil
      with c show ?thesis by simp
    next
      case (Cons x xs)
      then show ?thesis using \<open>cs = c # rest\<close> \<open>rest = c' # rest'\<close>
        by (cases xs) (simp_all add: hasWindowsDrive_def slash_def)
    qed
  qed
qed

section \<open>What the resolver prepares\<close>

lemma cleanedOf_no_backslash: "backslash \<notin> set (cleanedOf t)"
proof -
  have "set (collapseSlashes (replaceBackslashes t)) \<subseteq> set (replaceBackslashes t)"
    by (rule collapseSlashes_chars)
  then have "backslash \<notin> set (collapseSlashes (replaceBackslashes t))"
    using replaceBackslashes_free [of t] by blast
  then show ?thesis by (auto simp: cleanedOf_def Let_def dest: in_set_butlastD)
qed

lemma trim_Nil [simp]: "trim [] = []"
  by (simp add: trim_def)

lemma prepare_cases:
  assumes "prepareOperationPath raw = Some prep"
  obtains r where "raw = Str r" "cleanedOf (trim r) = ''/''"
      "normalizedPath prep = path_normalize path_sep"
  | r where "raw = Str r" "cleanedOf (trim r) \<noteq> ''/''" "segments (cleanedOf (trim r)) \<noteq> []"
      "startsWith (cleanedOf (trim r)) ''/''" "\<not> hasWindowsDrive (hd (segments (cleanedOf (trim r))))"
      "normalizedPath prep = path_normalize (path_join (path_sep # segments (cleanedOf (trim r))))"
  | r where "raw = Str r" "cleanedOf (trim r) \<noteq> ''/''" "segments (cleanedOf (trim r)) \<noteq> []"
      "normalizedPath prep = path_normalize (path_join (segments (cleanedOf (trim r))))"
  using assms
  by (auto simp: prepareOperationPath_def cleanedOf_def Let_def
      split: js_value.splits if_splits)

lemma filter_segments [simp]: "filter (\<lambda>a. a \<noteq> []) (segments s) = segments s"
  by (simp add: segments_def)

lemma path_join_segments:
  assumes "segments s \<noteq> []"
  shows "path_join (segments s) = path_normalize (join_slash (segments s))"
  using assms by (simp add: path_join_def)

lemma path_join_rooted:
  assumes "\<forall>c \<in> set cs. isSegment c"
  shows "path_join (path_sep # cs) = path_normalize (join_slash (path_sep # cs))"
proof -
  have "filter (\<lambda>a. a \<noteq> []) cs = cs" using assms by (auto simp: isSegment_def filter_id_conv)
  then show ?thesis by (simp add: path_join_def path_sep_def)
qed

lemma join_rooted:
  assumes "cs \<noteq> []"
  shows "join_slash (path_sep # cs) = slash # slash # join_slash cs"
  using assms by (cases cs) (simp_all add: path_sep_def)

lemma prepare_canonical:
  assumes "prepareOperationPath raw = Some prep"
  shows "(canonicalAbsolute (normalizedPath prep) \<or> canonicalRelative (normalizedPath prep)) \<and>
         backslash \<notin> set (normalizedPath prep)"
  using assms
proof (cases rule: prepare_cases)
  case (1 r)
  have "path_normalize path_sep = ''/''" by code_simp
  moreover have "canonicalAbsolute ''/''" by code_simp
  moreover have "backslash \<notin> set ''/''" by (simp add: backslash_def)
  ultimately show ?thesis using 1(3) by simp
next
  case (2 r)
  define cs where "cs = segments (cleanedOf (trim r))"
  have cs: "\<forall>c \<in> set cs. isSegment c" "cs \<noteq> []"
    using 2(3) by (simp_all add: cs_def segments_isSegment)
  define j where "j = slash # slash # join_slash cs"
  have j: "hd j = slash" "j \<noteq> []" by (simp_all add: j_def)
  have "last j = last (join_slash cs)" using join_not_Nil [OF cs] by (simp add: j_def)
  then have lj: "last j \<noteq> slash" using last_join_segments [OF cs] by simp
  have fs: "path_join (path_sep # cs) = path_normalize j"
    by (simp add: path_join_rooted [OF cs(1)] join_rooted [OF cs(2)] j_def)
  have can: "canonicalAbsolute (path_normalize j)"
    using j lj by (rule canonical_of_absolute)
  have n: "normalizedPath prep = path_normalize j"
    using 2(6) fs can by (simp add: cs_def [symmetric] path_normalize_canonicalAbsolute)
  have "set (join_slash cs) \<subseteq> insert slash (set (cleanedOf (trim r)))"
    using join_slash_chars [of cs] segments_chars [of _ "cleanedOf (trim r)"]
    by (auto simp: cs_def)
  then have "set j \<subseteq> insert slash (set (cleanedOf (trim r)))" by (auto simp: j_def)
  then have "backslash \<notin> set j" using cleanedOf_no_backslash [of "trim r"] by auto
  then have "backslash \<notin> set (path_normalize j)"
    using path_normalize_chars [of j] by (auto simp: backslash_def slash_def)
  then show ?thesis using can n by simp
next
  case (3 r)
  define cs where "cs = segments (cleanedOf (trim r))"
  have cs: "\<forall>c \<in> set cs. isSegment c" "cs \<noteq> []"
    using 3(3) by (simp_all add: cs_def segments_isSegment)
  define j where "j = join_slash cs"
  have j: "hd j \<noteq> slash" "j \<noteq> []" "last j \<noteq> slash"
    using hd_join_segments [OF cs] join_not_Nil [OF cs] last_join_segments [OF cs]
    by (simp_all add: j_def)
  have fs: "path_join cs = path_normalize j"
    using path_join_segments [OF 3(3)] by (simp add: cs_def j_def)
  have can: "canonicalRelative (path_normalize j)"
    using j by (rule canonical_of_relative)
  have n: "normalizedPath prep = path_normalize j"
    using 3(4) fs can by (simp add: cs_def [symmetric] path_normalize_canonicalRelative)
  have "set j \<subseteq> insert slash (set (cleanedOf (trim r)))"
    using join_slash_chars [of cs] segments_chars [of _ "cleanedOf (trim r)"]
    by (auto simp: cs_def j_def)
  then have "backslash \<notin> set j" using cleanedOf_no_backslash [of "trim r"] by auto
  then have "backslash \<notin> set (path_normalize j)"
    using path_normalize_chars [of j] by (auto simp: backslash_def slash_def)
  then show ?thesis using can n by simp
qed

lemma endsWith_slash: "endsWith s ''/'' \<longleftrightarrow> s \<noteq> [] \<and> last s = slash"
  by (cases s rule: rev_cases) (auto simp: endsWith_def slash_def)

lemma startsWith_slash: "startsWith s ''/'' \<longleftrightarrow> s \<noteq> [] \<and> hd s = slash"
  by (cases s) (auto simp: startsWith_def slash_def)

lemma prepare_Str:
  "prepareOperationPath (Str r) =
     (if trim r = [] \<or> cleanedOf (trim r) = [] then None
      else if cleanedOf (trim r) = ''/'' then
        Some \<lparr>targetPath = path_normalize path_sep, normalizedPath = path_normalize path_sep,
              original = trim r\<rparr>
      else if segments (cleanedOf (trim r)) = [] then None
      else
        let fsPath =
              (if startsWith (cleanedOf (trim r)) ''/'' \<and>
                  \<not> hasWindowsDrive (hd (segments (cleanedOf (trim r))))
               then path_join (path_sep # segments (cleanedOf (trim r)))
               else path_join (segments (cleanedOf (trim r))))
        in Some \<lparr>targetPath = path_normalize fsPath, normalizedPath = path_normalize fsPath,
                 original = trim r\<rparr>)"
  by (simp add: prepareOperationPath_def cleanedOf_def Let_def)

lemma cleanedOf_fixed:
  assumes "backslash \<notin> set n" "collapseSlashes n = n" "n = ''/'' \<or> last n \<noteq> slash"
  shows "cleanedOf n = n"
  using assms by (auto simp: cleanedOf_def replaceBackslashes_id endsWith_slash)

lemma prepare_absolute_fixed:
  assumes can: "canonicalAbsolute n" and b: "backslash \<notin> set n" and t: "trim n = n"
    and d: "\<not> hasWindowsDrive (drop 1 n)"
  shows "prepareOperationPath (Str n) = Some \<lparr>targetPath = n, normalizedPath = n, original = n\<rparr>"
proof (cases "segments n = []")
  case True
  moreover have "n = slash # join_slash (segments n)"
    using can unfolding canonicalAbsolute_def by blast
  ultimately have "n = ''/''" by (simp add: slash_def)
  moreover have "prepareOperationPath (Str ''/'') =
      Some \<lparr>targetPath = ''/'', normalizedPath = ''/'', original = ''/''\<rparr>"
    by code_simp
  ultimately show ?thesis by simp
next
  case False
  define cs where "cs = segments n"
  have n: "n = slash # join_slash cs" and dots: "''.'' \<notin> set cs" "''..'' \<notin> set cs"
    using can unfolding canonicalAbsolute_def cs_def by blast+
  have cs: "\<forall>c \<in> set cs. isSegment c" "cs \<noteq> []"
    using False unfolding cs_def by (blast intro: segments_isSegment)+
  have jn: "join_slash cs \<noteq> []" using join_not_Nil [OF cs] .
  have ne: "n \<noteq> []" "hd n = slash" unfolding n by simp_all
  have ln: "last n \<noteq> slash" unfolding n using last_join_segments [OF cs] jn by simp
  have "n \<noteq> [slash]" unfolding n using jn by simp
  then have nroot: "n \<noteq> ''/''" by (simp add: slash_def)
  have col: "collapseSlashes n = n"
    unfolding n
    using collapseSlashes_slash_Cons [OF jn hd_join_segments [OF cs]] collapseSlashes_join [OF cs(1)]
    by simp
  have cl: "cleanedOf n = n" using b col ln by (intro cleanedOf_fixed) simp_all
  have drive: "\<not> hasWindowsDrive (hd cs)"
    using d hasWindowsDrive_join [OF cs] unfolding n by simp
  define j where "j = slash # n"
  have j: "hd j = slash" "j \<noteq> []" by (simp_all add: j_def)
  have lj: "last j \<noteq> slash" using ln ne by (simp add: j_def)
  have "segments j = cs" by (simp add: j_def cs_def)
  then have "path_normalize j = slash # join_slash cs"
    unfolding path_normalize_absolute [OF j lj] using dots
    by (simp add: normalizeSegments_fixed_absolute)
  then have "path_normalize j = n" using n by simp
  moreover have "join_slash (path_sep # cs) = j"
    unfolding j_def join_rooted [OF cs(2)] using n by simp
  ultimately have pj: "path_join (path_sep # cs) = n"
    by (simp add: path_join_rooted [OF cs(1)])
  have pn: "path_normalize n = n" using can by (rule path_normalize_canonicalAbsolute)
  show ?thesis
    unfolding prepare_Str
    using ne nroot cl t cs(2) drive pj pn
    by (simp add: Let_def cs_def [symmetric] startsWith_slash)
qed

lemma prepare_relative_fixed:
  assumes can: "canonicalRelative n" and b: "backslash \<notin> set n" and t: "trim n = n"
  shows "prepareOperationPath (Str n) = Some \<lparr>targetPath = n, normalizedPath = n, original = n\<rparr>"
proof (cases "n = ''.''")
  case True
  moreover have "prepareOperationPath (Str ''.'') =
      Some \<lparr>targetPath = ''.'', normalizedPath = ''.'', original = ''.''\<rparr>"
    by code_simp
  ultimately show ?thesis by simp
next
  case False
  define cs where "cs = segments n"
  have n: "n = join_slash cs" and "cs \<noteq> []"
    using can False unfolding canonicalRelative_def cs_def by blast+
  have cs: "\<forall>c \<in> set cs. isSegment c" "cs \<noteq> []"
    using \<open>cs \<noteq> []\<close> unfolding cs_def by (blast intro: segments_isSegment)+
  have ne: "n \<noteq> []" unfolding n using join_not_Nil [OF cs] .
  have hn: "hd n \<noteq> slash" unfolding n using hd_join_segments [OF cs] .
  have ln: "last n \<noteq> slash" unfolding n using last_join_segments [OF cs] .
  have "n \<noteq> [slash]" using hn by auto
  then have nroot: "n \<noteq> ''/''" by (simp add: slash_def)
  have col: "collapseSlashes n = n" unfolding n using collapseSlashes_join [OF cs(1)] .
  have cl: "cleanedOf n = n" using b col ln by (intro cleanedOf_fixed) simp_all
  have pn: "path_normalize n = n" using can by (rule path_normalize_canonicalRelative)
  have pj: "path_join cs = n"
    using path_join_segments [of n] cs(2) pn by (simp add: cs_def [symmetric] n [symmetric])
  show ?thesis
    unfolding prepare_Str
    using ne nroot cl t cs(2) hn pj pn
    by (simp add: Let_def cs_def [symmetric] startsWith_slash)
qed

lemma canonicalRelative_not_absolute:
  assumes "canonicalRelative n"
  shows "\<not> path_isAbsolute n"
proof (cases "n = ''.''")
  case True
  then show ?thesis by (simp add: path_isAbsolute_def slash_def)
next
  case False
  define cs where "cs = segments n"
  have n: "n = join_slash cs" and "cs \<noteq> []"
    using assms False unfolding canonicalRelative_def cs_def by blast+
  have cs: "\<forall>c \<in> set cs. isSegment c" "cs \<noteq> []"
    using \<open>cs \<noteq> []\<close> unfolding cs_def by (blast intro: segments_isSegment)+
  have "hd n \<noteq> slash" unfolding n using hd_join_segments [OF cs] .
  then show ?thesis by (cases n) (simp_all add: path_isAbsolute_def)
qed

lemma prepare_fixed:
  assumes "prepareOperationPath raw = Some prep"
    and "trim (normalizedPath prep) = normalizedPath prep"
    and "\<not> (path_isAbsolute (normalizedPath prep) \<and> hasWindowsDrive (drop 1 (normalizedPath prep)))"
  shows "prepareOperationPath (Str (normalizedPath prep)) =
     Some \<lparr>targetPath = normalizedPath prep, normalizedPath = normalizedPath prep,
           original = normalizedPath prep\<rparr>"
proof -
  define n where "n = normalizedPath prep"
  have c: "canonicalAbsolute n \<or> canonicalRelative n" and b: "backslash \<notin> set n"
    using prepare_canonical [OF assms(1)] by (simp_all add: n_def)
  from c show ?thesis
  proof
    assume ca: "canonicalAbsolute n"
    then have "n = slash # join_slash (segments n)" unfolding canonicalAbsolute_def by blast
    then have "path_isAbsolute n" by (cases n) (simp_all add: path_isAbsolute_def)
    then have "\<not> hasWindowsDrive (drop 1 n)" using assms(3) by (simp add: n_def)
    then show ?thesis
      using prepare_absolute_fixed [OF ca b] assms(2) by (simp add: n_def)
  next
    assume cr: "canonicalRelative n"
    show ?thesis using prepare_relative_fixed [OF cr b] assms(2) by (simp add: n_def)
  qed
qed

lemma resolve_by_normalizedPath:
  assumes "prepareOperationPath a = Some pa" "prepareOperationPath b = Some pb"
    and "normalizedPath pa = normalizedPath pb"
    and "resolveFsPathFromApiPath env a = Resolved p f"
  shows "resolveFsPathFromApiPath env b = Resolved pb f"
  using assms
  by (auto simp: resolveFsPathFromApiPath_def Let_def split: if_splits)

lemma segments_Nil_only_slashes: "segments s = [] \<Longrightarrow> set s \<subseteq> {slash}"
proof (induction s)
  case Nil
  show ?case by simp
next
  case (Cons c s)
  show ?case
  proof (cases "c = slash")
    case True
    then show ?thesis using Cons by (simp add: segments_def)
  next
    case False
    then have "segments (c # s) \<noteq> []"
      by (cases "split_slash s") (simp_all add: segments_def)
    then show ?thesis using Cons.prems by simp
  qed
qed

lemma hd_collapseSlashes: "collapseSlashes (c # s) = c # tl (collapseSlashes (c # s))"
  by (induction "c # s" arbitrary: c s rule: collapseSlashes.induct) auto

lemma collapseSlashes_only_slashes:
  "set (collapseSlashes s) \<subseteq> {slash} \<Longrightarrow> length (collapseSlashes s) \<le> 1"
proof (induction s rule: collapseSlashes.induct)
  case 1
  show ?case by simp
next
  case (2 c)
  show ?case by simp
next
  case (3 c d s)
  show ?case
  proof (cases "c = slash \<and> d = slash")
    case True
    then show ?thesis using 3 by simp
  next
    case False
    then have eq: "collapseSlashes (c # d # s) = c # collapseSlashes (d # s)" by auto
    then have "c = slash" "set (collapseSlashes (d # s)) \<subseteq> {slash}"
      using "3.prems" by auto
    moreover have "d \<in> set (collapseSlashes (d # s))"
      using hd_collapseSlashes [of d s] by (metis list.set_intros(1))
    ultimately have "c = slash \<and> d = slash" by auto
    then show ?thesis using False by simp
  qed
qed

lemma cleanedOf_segments:
  assumes "t \<noteq> []"
  shows "cleanedOf t \<noteq> [] \<and> (cleanedOf t = ''/'' \<or> segments (cleanedOf t) \<noteq> [])"
proof -
  define ns where "ns = collapseSlashes (replaceBackslashes t)"
  have ne: "ns \<noteq> []" using assms by (simp add: ns_def replaceBackslashes_def)
  show ?thesis
  proof (cases "ns \<noteq> ''/'' \<and> endsWith ns ''/''")
    case False
    then have c: "cleanedOf t = ns" by (auto simp: cleanedOf_def ns_def Let_def)
    have "ns = ''/''" if "segments ns = []"
    proof -
      have "set ns \<subseteq> {slash}" using that by (rule segments_Nil_only_slashes)
      then have "length ns \<le> 1" unfolding ns_def by (rule collapseSlashes_only_slashes)
      then obtain x where "ns = [x]" using ne by (cases ns) auto
      then show ?thesis using \<open>set ns \<subseteq> {slash}\<close> by (simp add: slash_def)
    qed
    then show ?thesis using c ne by auto
  next
    case True
    then have c: "cleanedOf t = butlast ns" by (auto simp: cleanedOf_def ns_def Let_def)
    from True have l: "last ns = slash" by (simp add: endsWith_slash)
    have "ns \<noteq> [slash]" using True by (simp add: slash_def)
    then have b: "butlast ns \<noteq> []" using ne l by (cases ns) auto
    have "segments (butlast ns) \<noteq> []"
    proof
      assume "segments (butlast ns) = []"
      then have "set (butlast ns) \<subseteq> {slash}" by (rule segments_Nil_only_slashes)
      moreover have "ns = butlast ns @ [slash]" using ne l by (metis append_butlast_last_id)
      ultimately have "set ns \<subseteq> {slash}"
        by (metis Un_insert_right append_Nil2 insert_subset list.simps(15) set_append
            subset_refl)
      then have "length ns \<le> 1" unfolding ns_def by (rule collapseSlashes_only_slashes)
      then show False using b ne by (cases ns) auto
    qed
    then show ?thesis using c b by simp
  qed
qed

lemma prepare_None_iff:
  "prepareOperationPath raw = None \<longleftrightarrow> (\<forall>r. raw = Str r \<longrightarrow> trim r = [])"
proof (cases raw)
  case (Str r)
  show ?thesis
    using cleanedOf_segments [of "trim r"]
    by (auto simp: Str prepare_Str Let_def)
qed (simp_all add: prepareOperationPath_def)

section \<open>The resolver stays inside the storage root\<close>

lemma resolveLoop_absolute:
  "path_isAbsolute cwd \<Longrightarrow> snd (resolveLoop (ps @ [cwd]) acc)"
  by (induction ps arbitrary: acc) (auto simp: path_isAbsolute_def split: list.splits)

lemma path_resolve_absolute:
  "path_isAbsolute cwd \<Longrightarrow> path_isAbsolute (path_resolve cwd args)"
  using resolveLoop_absolute [of cwd "rev args" "[]"]
  by (auto simp: path_resolve_def path_isAbsolute_def Let_def split: prod.splits)

lemma path_resolve_segments:
  assumes "path_isAbsolute cwd"
  shows "''.'' \<notin> set (segments (path_resolve cwd args)) \<and>
         ''..'' \<notin> set (segments (path_resolve cwd args))"
proof -
  obtain rp ab where loop: "resolveLoop (rev args @ [cwd]) [] = (rp, ab)"
    by (cases "resolveLoop (rev args @ [cwd]) []")
  have "ab" using resolveLoop_absolute [OF assms, of "rev args" "[]"] loop by simp
  then have "path_resolve cwd args = slash # join_slash (normalizeSegments False (segments rp))"
    using loop by (simp add: path_resolve_def normalizeString_def)
  moreover have "segments (join_slash (normalizeSegments False (segments rp))) =
      normalizeSegments False (segments rp)"
    by (intro segments_join normalizeSegments_isSegment all_segments)
  ultimately have "segments (path_resolve cwd args) = normalizeSegments False (segments rp)"
    by simp
  then show ?thesis
    by (simp add: normalizeSegments_no_dot normalizeSegments_no_dotdot)
qed

lemma path_resolve_canonical:
  assumes "path_isAbsolute cwd"
  shows "path_resolve cwd args = slash # join_slash (segments (path_resolve cwd args))"
proof -
  obtain rp ab where loop: "resolveLoop (rev args @ [cwd]) [] = (rp, ab)"
    by (cases "resolveLoop (rev args @ [cwd]) []")
  have "ab" using resolveLoop_absolute [OF assms, of "rev args" "[]"] loop by simp
  then have p: "path_resolve cwd args = slash # join_slash (normalizeSegments False (segments rp))"
    using loop by (simp add: path_resolve_def normalizeString_def)
  moreover have "segments (join_slash (normalizeSegments False (segments rp))) =
      normalizeSegments False (segments rp)"
    by (intro segments_join normalizeSegments_isSegment all_segments)
  ultimately have "segments (path_resolve cwd args) = normalizeSegments False (segments rp)"
    by simp
  then show ?thesis using p by simp
qed

lemma resolve_insideVolume:
  "resolveFsPathFromApiPath env raw = Resolved prep fsPath \<Longrightarrow> insideVolume env fsPath"
  by (auto simp: resolveFsPathFromApiPath_def Let_def split: option.splits if_splits)

lemma resolve_prepared:
  "resolveFsPathFromApiPath env raw = Resolved prep fsPath \<Longrightarrow>
   prepareOperationPath raw = Some prep"
  by (auto simp: resolveFsPathFromApiPath_def Let_def split: option.splits if_splits)

lemma resolve_is_path_resolve:
  "resolveFsPathFromApiPath env raw = Resolved prep fsPath \<Longrightarrow>
   \<exists>args. fsPath = path_resolve (process_cwd env) args"
  by (auto simp: resolveFsPathFromApiPath_def Let_def split: option.splits if_splits)

lemma resolve_throws:
  "resolveFsPathFromApiPath env raw = Throws m \<Longrightarrow>
   m = ''Resolved path escapes the volume'' \<and>
   (\<exists>rel. \<not> insideVolume env (path_resolve (process_cwd env) [VOLUME_PATH env, rel]))"
  by (auto simp: resolveFsPathFromApiPath_def Let_def split: option.splits if_splits)

lemma resolve_null:
  "resolveFsPathFromApiPath env raw = Null \<longleftrightarrow> prepareOperationPath raw = None"
  by (auto simp: resolveFsPathFromApiPath_def Let_def split: option.splits if_splits)

lemma prepared_truthy: "prepareOperationPath raw = Some prep \<Longrightarrow> truthy raw"
  by (cases raw) (auto simp: prepareOperationPath_def Let_def split: if_splits)

text \<open>
  Claim C1. Whatever the raw input, resolution returns null, throws, or returns a
  filesystem path. A path it returns (the working directory of the process being
  absolute, as \<open>process.cwd()\<close> always is) is absolute and is the storage root itself or
  begins with the storage root followed by the separator. It is moreover a resolved path:
  it is the separator followed by its segments joined with the separator, and none of its
  segments is \<open>.\<close> or \<open>..\<close>, so that no later segment leads back out of the directory that
  the earlier ones name. Its segments are those of the storage root followed by the
  segments below the root, and there are none below the root only if the path is the
  storage root itself: the path names the storage root or a strict descendant of it. A
  sibling directory whose name only begins like the root's is not inside.
\<close>

theorem resolution_stays_inside_volume:
  assumes cwd: "path_isAbsolute (process_cwd env)"
    and res: "resolveFsPathFromApiPath env raw = Resolved prep fsPath"
  shows "path_isAbsolute fsPath \<and>
         (fsPath = volResolved env \<or> prefix (volResolved env @ path_sep) fsPath) \<and>
         prefix (segments (volResolved env)) (segments fsPath) \<and>
         fsPath = slash # join_slash (segments fsPath) \<and>
         ''.'' \<notin> set (segments fsPath) \<and> ''..'' \<notin> set (segments fsPath) \<and>
         (\<exists>below. segments fsPath = segments (volResolved env) @ below \<and>
                   (below = [] \<longleftrightarrow> fsPath = volResolved env))"
proof -
  have inside: "insideVolume env fsPath"
    using res by (rule resolve_insideVolume)
  have vol: "path_isAbsolute (volResolved env)"
    unfolding volResolved_def using cwd by (rule path_resolve_absolute)
  have str: "fsPath = volResolved env \<or> prefix (volResolved env @ path_sep) fsPath"
    using inside by (auto simp: insideVolume_def startsWith_def)
  have abs: "path_isAbsolute fsPath"
    using str vol by (auto simp: path_isAbsolute_def prefix_def split: list.splits)
  have seg: "prefix (segments (volResolved env)) (segments fsPath)"
    using str
  proof
    assume "fsPath = volResolved env"
    then show ?thesis by simp
  next
    assume "prefix (volResolved env @ path_sep) fsPath"
    then obtain r where "fsPath = volResolved env @ slash # r"
      by (auto simp: prefix_def path_sep_def)
    then show ?thesis by (simp add: segments_append)
  qed
  obtain args where args: "fsPath = path_resolve (process_cwd env) args"
    using resolve_is_path_resolve [OF res] by blast
  have canon: "fsPath = slash # join_slash (segments fsPath)"
    unfolding args using cwd by (rule path_resolve_canonical)
  have dots: "''.'' \<notin> set (segments fsPath) \<and> ''..'' \<notin> set (segments fsPath)"
    unfolding args using cwd by (rule path_resolve_segments)
  have volCanon: "volResolved env = slash # join_slash (segments (volResolved env))"
    unfolding volResolved_def using cwd by (rule path_resolve_canonical)
  obtain below where below: "segments fsPath = segments (volResolved env) @ below"
    using seg by (auto simp: prefix_def)
  have strict: "below = [] \<longleftrightarrow> fsPath = volResolved env"
  proof
    assume "below = []"
    then have "segments fsPath = segments (volResolved env)"
      using below by simp
    then show "fsPath = volResolved env"
      using canon volCanon by metis
  next
    assume "fsPath = volResolved env"
    then show "below = []" using below by simp
  qed
  from below strict
  have "\<exists>below. segments fsPath = segments (volResolved env) @ below \<and>
                 (below = [] \<longleftrightarrow> fsPath = volResolved env)"
    by blast
  with abs str seg canon dots show ?thesis by blast
qed

theorem resolution_stays_inside_volume_witness:
  "path_isAbsolute (process_cwd exampleEnv) \<and>
   resolveFsPathFromApiPath exampleEnv (Str ''/Haptic/../../etc/passwd'') =
     Resolved \<lparr>targetPath = ''/etc/passwd'', normalizedPath = ''/etc/passwd'',
               original = ''/Haptic/../../etc/passwd''\<rparr> ''/srv/app/Haptic/etc/passwd'' \<and>
   volResolved exampleEnv = ''/srv/app/Haptic'' \<and>
   path_isAbsolute ''/srv/app/Haptic/etc/passwd'' \<and>
   prefix (volResolved exampleEnv @ path_sep) ''/srv/app/Haptic/etc/passwd'' \<and>
   ''..'' \<notin> set (segments ''/srv/app/Haptic/etc/passwd'') \<and>
   segments ''/srv/app/Haptic/etc/passwd'' =
     segments (volResolved exampleEnv) @ [''etc'', ''passwd''] \<and>
   resolveFsPathFromApiPath exampleEnv (Str ''../../etc/passwd'') =
     Throws ''Resolved path escapes the volume'' \<and>
   resolveFsPathFromApiPath exampleEnv (Str ''/srv/app/Haptic-evil/x'') =
     Resolved \<lparr>targetPath = ''/srv/app/Haptic-evil/x'',
               normalizedPath = ''/srv/app/Haptic-evil/x'',
               original = ''/srv/app/Haptic-evil/x''\<rparr>
       ''/srv/app/Haptic/srv/app/Haptic-evil/x'' \<and>
   insideVolume exampleEnv ''/srv/app/Haptic/../../etc/passwd'' \<and>
   ''..'' \<in> set (segments ''/srv/app/Haptic/../../etc/passwd'') \<and>
   \<not> insideVolume exampleEnv ''/srv/app/Haptic-evil/a.md''"
proof -
  have cwd: "path_isAbsolute (process_cwd exampleEnv)"
    by code_simp
  have res: "resolveFsPathFromApiPath exampleEnv (Str ''/Haptic/../../etc/passwd'') =
     Resolved \<lparr>targetPath = ''/etc/passwd'', normalizedPath = ''/etc/passwd'',
               original = ''/Haptic/../../etc/passwd''\<rparr> ''/srv/app/Haptic/etc/passwd''"
    by code_simp
  have root: "volResolved exampleEnv = ''/srv/app/Haptic''"
    by code_simp
  have below: "segments ''/srv/app/Haptic/etc/passwd'' =
     segments (volResolved exampleEnv) @ [''etc'', ''passwd'']"
    by code_simp
  have escaping: "resolveFsPathFromApiPath exampleEnv (Str ''../../etc/passwd'') =
     Throws ''Resolved path escapes the volume''"
    by code_simp
  have absolute: "resolveFsPathFromApiPath exampleEnv (Str ''/srv/app/Haptic-evil/x'') =
     Resolved \<lparr>targetPath = ''/srv/app/Haptic-evil/x'',
               normalizedPath = ''/srv/app/Haptic-evil/x'',
               original = ''/srv/app/Haptic-evil/x''\<rparr>
       ''/srv/app/Haptic/srv/app/Haptic-evil/x''"
    by code_simp
  have unresolved: "insideVolume exampleEnv ''/srv/app/Haptic/../../etc/passwd''"
    by code_simp
  have dotted: "''..'' \<in> set (segments ''/srv/app/Haptic/../../etc/passwd'')"
    by code_simp
  have sibling: "\<not> insideVolume exampleEnv ''/srv/app/Haptic-evil/a.md''"
    by code_simp
  note resolved = resolution_stays_inside_volume [OF cwd res]
  have "path_isAbsolute ''/srv/app/Haptic/etc/passwd''"
    using resolved by (elim conjE) assumption
  moreover have "''/srv/app/Haptic/etc/passwd'' = volResolved exampleEnv \<or>
     prefix (volResolved exampleEnv @ path_sep) ''/srv/app/Haptic/etc/passwd''"
    using resolved by (elim conjE) assumption
  moreover have "''..'' \<notin> set (segments ''/srv/app/Haptic/etc/passwd'')"
    using resolved by (elim conjE) assumption
  moreover have "''/srv/app/Haptic/etc/passwd'' \<noteq> volResolved exampleEnv"
    unfolding root by simp
  ultimately show ?thesis
    using cwd res root below escaping absolute unresolved dotted sibling by blast
qed

section \<open>Segments \<open>.\<close> and \<open>..\<close>\<close>

text \<open>
  Claim C5, as stated, fails: \<open>path.join\<close> and \<open>path.normalize\<close> in
  \<open>prepareOperationPath\<close> drop a \<open>.\<close> segment and let a \<open>..\<close> segment remove the segment
  before it, so neither is kept in the normalized path or in the filesystem path.
\<close>

theorem dot_segments_kept_counterexample:
  "resolveFsPathFromApiPath exampleEnv (Str ''/Haptic/a/../b/./c'') =
     Resolved \<lparr>targetPath = ''/Haptic/b/c'', normalizedPath = ''/Haptic/b/c'',
               original = ''/Haptic/a/../b/./c''\<rparr> ''/srv/app/Haptic/b/c'' \<and>
   ''..'' \<in> set (segments ''/Haptic/a/../b/./c'') \<and>
   ''.'' \<in> set (segments ''/Haptic/a/../b/./c'') \<and>
   ''..'' \<notin> set (segments ''/Haptic/b/c'') \<and>
   ''.'' \<notin> set (segments ''/Haptic/b/c'')"
  by code_simp

text \<open>
  Claim C5, amended. Path normalization collapses \<open>.\<close> and \<open>..\<close>: for every input that
  resolves (the working directory of the process being absolute), the filesystem path has
  no \<open>.\<close> and no \<open>..\<close> segment; the normalized path has no \<open>.\<close> segment unless it is \<open>.\<close>
  itself, it has \<open>..\<close> segments only in front of all its other segments, and none at all
  when it is absolute.
\<close>

theorem dot_segments_collapsed:
  assumes cwd: "path_isAbsolute (process_cwd env)"
    and res: "resolveFsPathFromApiPath env raw = Resolved prep fsPath"
  shows "''.'' \<notin> set (segments fsPath) \<and> ''..'' \<notin> set (segments fsPath) \<and>
         (normalizedPath prep = ''.'' \<or> ''.'' \<notin> set (segments (normalizedPath prep))) \<and>
         leadingParents (segments (normalizedPath prep)) \<and>
         (path_isAbsolute (normalizedPath prep) \<longrightarrow>
            ''..'' \<notin> set (segments (normalizedPath prep)))"
proof -
  obtain args where "fsPath = path_resolve (process_cwd env) args"
    using resolve_is_path_resolve [OF res] by blast
  then have fs: "''.'' \<notin> set (segments fsPath) \<and> ''..'' \<notin> set (segments fsPath)"
    using path_resolve_segments [OF cwd] by simp
  define n where "n = normalizedPath prep"
  have "canonicalAbsolute n \<or> canonicalRelative n"
    using prepare_canonical [OF resolve_prepared [OF res]] by (simp add: n_def)
  then have "(n = ''.'' \<or> ''.'' \<notin> set (segments n)) \<and> leadingParents (segments n) \<and>
             (path_isAbsolute n \<longrightarrow> ''..'' \<notin> set (segments n))"
  proof
    assume "canonicalAbsolute n"
    then have "''.'' \<notin> set (segments n)" "''..'' \<notin> set (segments n)"
      unfolding canonicalAbsolute_def by blast+
    then show ?thesis by (auto simp: leadingParents_def dest: set_dropWhileD)
  next
    assume rel: "canonicalRelative n"
    have nabs: "\<not> path_isAbsolute n" using rel by (rule canonicalRelative_not_absolute)
    show ?thesis
    proof (cases "n = ''.''")
      case True
      moreover have "leadingParents (segments ''.'')" by code_simp
      ultimately show ?thesis using nabs by simp
    next
      case False
      then have "''.'' \<notin> set (segments n)" "leadingParents (segments n)"
        using rel unfolding canonicalRelative_def by blast+
      then show ?thesis using nabs by simp
    qed
  qed
  with fs show ?thesis by (simp add: n_def)
qed

theorem dot_segments_collapsed_witness:
  "path_isAbsolute (process_cwd exampleEnv) \<and>
   resolveFsPathFromApiPath exampleEnv (Str ''../Haptic/./x/../y'') =
     Resolved \<lparr>targetPath = ''../Haptic/y'', normalizedPath = ''../Haptic/y'',
               original = ''../Haptic/./x/../y''\<rparr> ''/srv/app/Haptic/y'' \<and>
   ''.'' \<notin> set (segments ''/srv/app/Haptic/y'') \<and>
   ''..'' \<notin> set (segments ''/srv/app/Haptic/y'') \<and>
   ''.'' \<notin> set (segments ''../Haptic/y'') \<and>
   leadingParents (segments ''../Haptic/y'')"
proof -
  have cwd: "path_isAbsolute (process_cwd exampleEnv)"
    by code_simp
  have res: "resolveFsPathFromApiPath exampleEnv (Str ''../Haptic/./x/../y'') =
     Resolved \<lparr>targetPath = ''../Haptic/y'', normalizedPath = ''../Haptic/y'',
               original = ''../Haptic/./x/../y''\<rparr> ''/srv/app/Haptic/y''"
    by code_simp
  have "''../Haptic/y'' \<noteq> ''.''" by simp
  with dot_segments_collapsed [OF cwd res] cwd res show ?thesis
    by simp
qed

section \<open>Resolving a normalized path again\<close>

text \<open>
  Claim C6, as stated, fails. \<open>trim\<close> is applied to the input and not to the result, so a
  normalized path that ends in white space is trimmed when it is resolved again; and a
  normalized path \<open>/C:\<close>, reached from \<open>/./C:\<close>, is taken for a drive the second time and
  loses its leading slash.
\<close>

theorem resolution_idempotent_counterexample:
  "resolveFsPathFromApiPath exampleEnv (Str ''/Haptic/a /'') =
     Resolved \<lparr>targetPath = ''/Haptic/a '', normalizedPath = ''/Haptic/a '',
               original = ''/Haptic/a /''\<rparr> ''/srv/app/Haptic/a '' \<and>
   resolveFsPathFromApiPath exampleEnv (Str ''/Haptic/a '') =
     Resolved \<lparr>targetPath = ''/Haptic/a'', normalizedPath = ''/Haptic/a'',
               original = ''/Haptic/a''\<rparr> ''/srv/app/Haptic/a'' \<and>
   resolveFsPathFromApiPath exampleEnv (Str ''/./C:'') =
     Resolved \<lparr>targetPath = ''/C:'', normalizedPath = ''/C:'',
               original = ''/./C:''\<rparr> ''/srv/app/Haptic/C:'' \<and>
   resolveFsPathFromApiPath exampleEnv (Str ''/C:'') =
     Resolved \<lparr>targetPath = ''C:'', normalizedPath = ''C:'',
               original = ''/C:''\<rparr> ''/srv/app/Haptic/C:''"
  by code_simp

text \<open>
  Claim C6, amended. For every input whose resolution succeeds with a normalized path
  that has no white space at either end and does not start with a slash followed by a
  drive prefix (a letter and a colon), resolving that normalized path succeeds and gives
  the same normalized path and the same filesystem path.
\<close>

theorem resolution_idempotent:
  assumes res: "resolveFsPathFromApiPath env raw = Resolved prep fsPath"
    and ws: "trim (normalizedPath prep) = normalizedPath prep"
    and drive: "\<not> (path_isAbsolute (normalizedPath prep) \<and>
                     hasWindowsDrive (drop 1 (normalizedPath prep)))"
  shows "\<exists>prep'. resolveFsPathFromApiPath env (Str (normalizedPath prep)) = Resolved prep' fsPath \<and>
           normalizedPath prep' = normalizedPath prep"
proof -
  from res have p: "prepareOperationPath raw = Some prep"
    by (auto simp: resolveFsPathFromApiPath_def Let_def split: option.splits if_splits)
  define prep' where "prep' = \<lparr>targetPath = normalizedPath prep, normalizedPath = normalizedPath prep,
           original = normalizedPath prep\<rparr>"
  have p': "prepareOperationPath (Str (normalizedPath prep)) = Some prep'"
    unfolding prep'_def using p ws drive by (rule prepare_fixed)
  have "normalizedPath prep = normalizedPath prep'" by (simp add: prep'_def)
  with p p' have "resolveFsPathFromApiPath env (Str (normalizedPath prep)) = Resolved prep' fsPath"
    using res by (rule resolve_by_normalizedPath)
  then show ?thesis by (auto simp: prep'_def)
qed


theorem resolution_idempotent_witness:
  "resolveFsPathFromApiPath exampleEnv (Str ('' '' @ backslash # ''Haptic//notes/./a.md/ '')) =
     Resolved \<lparr>targetPath = ''/Haptic/notes/a.md'', normalizedPath = ''/Haptic/notes/a.md'',
               original = backslash # ''Haptic//notes/./a.md/''\<rparr> ''/srv/app/Haptic/notes/a.md'' \<and>
   trim ''/Haptic/notes/a.md'' = ''/Haptic/notes/a.md'' \<and>
   \<not> hasWindowsDrive (drop 1 ''/Haptic/notes/a.md'') \<and>
   (\<exists>prep'. resolveFsPathFromApiPath exampleEnv (Str ''/Haptic/notes/a.md'') =
        Resolved prep' ''/srv/app/Haptic/notes/a.md'' \<and>
      normalizedPath prep' = ''/Haptic/notes/a.md'')"
proof -
  have res: "resolveFsPathFromApiPath exampleEnv (Str ('' '' @ backslash # ''Haptic//notes/./a.md/ '')) =
     Resolved \<lparr>targetPath = ''/Haptic/notes/a.md'', normalizedPath = ''/Haptic/notes/a.md'',
               original = backslash # ''Haptic//notes/./a.md/''\<rparr> ''/srv/app/Haptic/notes/a.md''"
    by code_simp
  have ws: "trim ''/Haptic/notes/a.md'' = ''/Haptic/notes/a.md''"
    by code_simp
  have drive: "\<not> hasWindowsDrive (drop 1 ''/Haptic/notes/a.md'')"
    by code_simp
  from resolution_idempotent [OF res] ws drive res show ?thesis
    by simp
qed

section \<open>Rejections of the resolver in the routes\<close>

text \<open>
  Claim C4, as stated, fails: a path that would leave the storage root is not returned as
  a rejection; \<open>resolveFsPathFromApiPath\<close> throws \<open>Error('Resolved path escapes the
  volume')\<close>, and the \<open>catch\<close> of the route answers 500, the internal failure.
\<close>

theorem resolver_never_throws_counterexample:
  "resolveFsPathFromApiPath exampleEnv (Str ''../../etc/passwd'') =
     Throws ''Resolved path escapes the volume'' \<and>
   post_markdown exampleEnv ''2025-01-01T00:00:00.000Z''
       \<lparr>isJson = True, body_path = Str ''../../etc/passwd'', body_markdown = Str ''x''\<rparr>
       exampleServer =
     (\<lparr>status = 500,
       body = JObject [(''error'', JString ''Failed to save markdown file''),
                       (''details'', JString ''Resolved path escapes the volume'')]\<rparr>,
      exampleServer)"
  by code_simp

text \<open>
  Claim C4, amended. For every raw input, path resolution returns a resolved path inside
  the storage root, returns null, or throws the error \<open>Resolved path escapes the volume\<close>;
  it returns null exactly when the input is not a string or is blank after trimming.
  The routes answer null with status 400; they answer the throw with status 500 and the
  message of the error, the body routes when the request is JSON. In both cases the disk,
  the clients and the broadcasts are as before: the rejection comes before any access to
  the filesystem.
\<close>

theorem resolver_rejections_in_routes:
  assumes body: "body_path req = raw"
    and query: "firstIfArray (query_path q) = raw"
  shows
    "(resolveFsPathFromApiPath env raw = Null \<longleftrightarrow>
        (\<forall>r. raw = Str r \<longrightarrow> trim r = [])) \<and>
     (case resolveFsPathFromApiPath env raw of
        Resolved prep fsPath \<Rightarrow> insideVolume env fsPath
      | Null \<Rightarrow>
          status (fst (post_markdown env now req st)) = 400 \<and>
          snd (post_markdown env now req st) = st \<and>
          status (fst (put_markdown env now req st)) = 400 \<and>
          snd (put_markdown env now req st) = st \<and>
          status (fst (post_markdown_folder env now req st)) = 400 \<and>
          snd (post_markdown_folder env now req st) = st \<and>
          status (fst (delete_markdown env now q st)) = 400 \<and>
          snd (delete_markdown env now q st) = st
      | Throws m \<Rightarrow>
          m = ''Resolved path escapes the volume'' \<and>
          (isJson req \<longrightarrow>
             post_markdown env now req st =
               (failure ''Failed to save markdown file'' (Error m), st) \<and>
             put_markdown env now req st =
               (failure ''Failed to update markdown file'' (Error m), st) \<and>
             post_markdown_folder env now req st =
               (failure ''Failed to create directory'' (Error m), st)) \<and>
          delete_markdown env now q st = (failure ''Failed to delete item'' (Error m), st))"
proof
  show "resolveFsPathFromApiPath env raw = Null \<longleftrightarrow>
          (\<forall>r. raw = Str r \<longrightarrow> trim r = [])"
    by (simp add: resolve_null prepare_None_iff)
next
  show "case resolveFsPathFromApiPath env raw of
        Resolved prep fsPath \<Rightarrow> insideVolume env fsPath
      | Null \<Rightarrow>
          status (fst (post_markdown env now req st)) = 400 \<and>
          snd (post_markdown env now req st) = st \<and>
          status (fst (put_markdown env now req st)) = 400 \<and>
          snd (put_markdown env now req st) = st \<and>
          status (fst (post_markdown_folder env now req st)) = 400 \<and>
          snd (post_markdown_folder env now req st) = st \<and>
          status (fst (delete_markdown env now q st)) = 400 \<and>
          snd (delete_markdown env now q st) = st
      | Throws m \<Rightarrow>
          m = ''Resolved path escapes the volume'' \<and>
          (isJson req \<longrightarrow>
             post_markdown env now req st =
               (failure ''Failed to save markdown file'' (Error m), st) \<and>
             put_markdown env now req st =
               (failure ''Failed to update markdown file'' (Error m), st) \<and>
             post_markdown_folder env now req st =
               (failure ''Failed to create directory'' (Error m), st)) \<and>
          delete_markdown env now q st = (failure ''Failed to delete item'' (Error m), st)"
  proof (cases "resolveFsPathFromApiPath env raw")
    case Null
    then show ?thesis
      using body query
      by (simp add: post_markdown_def put_markdown_def post_markdown_folder_def
          delete_markdown_def respond_def Let_def)
  next
    case (Resolved prep fsPath)
    then show ?thesis by (simp add: resolve_insideVolume)
  next
    case (Throws m)
    then have "resolveFsPathFromApiPath env raw \<noteq> Null" by simp
    then have "prepareOperationPath raw \<noteq> None" by (simp add: resolve_null)
    then have t: "truthy raw" using prepared_truthy by blast
    have m: "m = ''Resolved path escapes the volume''"
      using resolve_throws [OF Throws] by simp
    show ?thesis
      using Throws body query t m
      by (simp add: post_markdown_def put_markdown_def post_markdown_folder_def
          delete_markdown_def Let_def)
  qed
qed

theorem resolver_rejections_in_routes_witness:
  "resolveFsPathFromApiPath exampleEnv (Str ''../../etc/passwd'') =
     Throws ''Resolved path escapes the volume'' \<and>
   delete_markdown exampleEnv ''2025-01-01T00:00:00.000Z''
       \<lparr>query_path = Str ''../../etc/passwd'', query_recursive = Str ''true''\<rparr> exampleServer =
     (failure ''Failed to delete item'' (Error ''Resolved path escapes the volume''),
      exampleServer) \<and>
   put_markdown exampleEnv ''2025-01-01T00:00:00.000Z''
       \<lparr>isJson = True, body_path = Str ''../../etc/passwd'', body_markdown = Str ''x''\<rparr>
       exampleServer =
     (failure ''Failed to update markdown file'' (Error ''Resolved path escapes the volume''),
      exampleServer)"
proof -
  have t: "resolveFsPathFromApiPath exampleEnv (Str ''../../etc/passwd'') =
     Throws ''Resolved path escapes the volume''"
    by code_simp
  have b: "body_path \<lparr>isJson = True, body_path = Str ''../../etc/passwd'',
                      body_markdown = Str ''x''\<rparr> = Str ''../../etc/passwd''"
    by simp
  have q: "firstIfArray (query_path \<lparr>query_path = Str ''../../etc/passwd'',
                                     query_recursive = Str ''true''\<rparr>) = Str ''../../etc/passwd''"
    by simp
  from resolver_rejections_in_routes [OF b q, of exampleEnv "''2025-01-01T00:00:00.000Z''" exampleServer] t
  show ?thesis by simp
qed

section \<open>Broadcasting a change\<close>

lemma broadcasts_broadcastChange:
  "broadcasts (broadcastChange coll ct p now st) =
   broadcasts st @ [changeMessage coll ct p now]"
  by (simp add: broadcastChange_def Let_def)

lemma disk_broadcastChange: "disk (broadcastChange coll ct p now st) = disk st"
  by (simp add: broadcastChange_def Let_def)

lemma ws_id_broadcastChange:
  "map ws_id (clients (broadcastChange coll ct p now st)) = map ws_id (clients st)"
  by (simp add: broadcastChange_def Let_def send_def)

text \<open>
  Claim C3, as stated, fails: \<open>broadcastChange\<close> never reads the \<open>collection\<close> of a socket.
  An event of the collection \<open>Haptic\<close> is sent to an open socket subscribed to \<open>Other\<close> and
  to an open socket that never subscribed.
\<close>

theorem broadcast_filters_by_collection_counterexample:
  "map collection (clients exampleServer) = [Str ''Other'', Str ''Haptic'', Undefined] \<and>
   map readyState (clients exampleServer) = [OPEN, CLOSED, OPEN] \<and>
   map sent (clients (broadcastChange ''Haptic'' ''created'' ''/Haptic/a.md''
                        ''2025-01-01T00:00:00.000Z'' exampleServer)) =
     [[changeMessage ''Haptic'' ''created'' ''/Haptic/a.md'' ''2025-01-01T00:00:00.000Z''],
      [],
      [changeMessage ''Haptic'' ''created'' ''/Haptic/a.md'' ''2025-01-01T00:00:00.000Z'']]"
  by code_simp

text \<open>
  Claim C3, amended. For every published event and every socket of the \<open>clients\<close> set, the
  event is sent to the socket exactly when its \<open>readyState\<close> is \<open>OPEN\<close>, whatever collection
  it subscribed to, and then exactly once; a socket that is not open is left as it is and
  the sockets after it are still served. The set keeps one entry for each socket: a
  connection or a broadcast leaves the identities distinct.
\<close>

theorem broadcast_reaches_open_sockets:
  "length (clients (broadcastChange coll ct p now st)) = length (clients st) \<and>
   (\<forall>i < length (clients st).
      clients (broadcastChange coll ct p now st) ! i =
        (clients st ! i)\<lparr>sent := sent (clients st ! i) @
           (if readyState (clients st ! i) = OPEN then [changeMessage coll ct p now] else [])\<rparr>) \<and>
   (distinct (map ws_id (clients st)) \<longrightarrow>
      distinct (map ws_id (clients (on_connection ws st))) \<and>
      distinct (map ws_id (clients (broadcastChange coll ct p now st))))"
proof -
  have "distinct (map ws_id (clients st)) \<Longrightarrow>
        distinct (map ws_id (clients (on_connection ws st)))"
    by (auto simp: on_connection_def)
  then show ?thesis
    by (auto simp: ws_id_broadcastChange) (simp_all add: broadcastChange_def Let_def send_def)
qed

theorem broadcast_reaches_open_sockets_witness:
  "(2::nat) < length (clients exampleServer) \<and>
   readyState (clients exampleServer ! 2) = OPEN \<and>
   collection (clients exampleServer ! 2) = Undefined \<and>
   sent (clients (broadcastChange ''Haptic'' ''deleted'' ''/Haptic/a.md''
                    ''2025-01-01T00:00:00.000Z'' exampleServer) ! 2) =
     [changeMessage ''Haptic'' ''deleted'' ''/Haptic/a.md'' ''2025-01-01T00:00:00.000Z'']"
proof -
  have i: "(2::nat) < length (clients exampleServer)"
    by code_simp
  have o: "readyState (clients exampleServer ! 2) = OPEN"
    by code_simp
  have c: "collection (clients exampleServer ! 2) = Undefined"
    by code_simp
  have s: "sent (clients exampleServer ! 2) = []"
    by code_simp
  from broadcast_reaches_open_sockets [of "''Haptic''" "''deleted''" "''/Haptic/a.md''"
      "''2025-01-01T00:00:00.000Z''" exampleServer] i o c s
  show ?thesis by simp
qed

section \<open>One event for each successful mutation\<close>

lemma post_markdown_events:
  "(case post_markdown env now req st of
      (res, st') \<Rightarrow>
        (status res = 201 \<and>
         (\<exists>prep fsPath.
            resolveFsPathFromApiPath env (body_path req) = Resolved prep fsPath \<and>
            fs_stat (disk st) fsPath = Inl (FsError ENOENT) \<and>
            broadcasts st' = broadcasts st @
              [changeMessage (ROOT_NAME env) ''created'' (normalizedPath prep) now])) \<or>
        (status res = 200 \<and>
         (\<exists>prep fsPath n.
            resolveFsPathFromApiPath env (body_path req) = Resolved prep fsPath \<and>
            fs_stat (disk st) fsPath = Inr n \<and>
            broadcasts st' = broadcasts st @
              [changeMessage (ROOT_NAME env) ''updated'' (normalizedPath prep) now])) \<or>
        ((status res = 400 \<or> status res = 500) \<and> broadcasts st' = broadcasts st))"
proof (cases "resolveFsPathFromApiPath env (body_path req)")
  case Null
  then show ?thesis by (simp add: post_markdown_def respond_def)
next
  case (Throws m)
  then show ?thesis by (simp add: post_markdown_def respond_def failure_def)
next
  case (Resolved prep fsPath)
  show ?thesis
  proof (cases "fs_stat (disk st) fsPath")
    case (Inr n)
    then show ?thesis
      using Resolved
      by (simp add: post_markdown_def respond_def failure_def broadcasts_broadcastChange
          split: sum.splits prod.splits option.splits)
  next
    case (Inl ex)
    show ?thesis
    proof (cases "isENOENT ex")
      case True
      then have "ex = FsError ENOENT" by (cases ex) simp_all
      then show ?thesis
        using Resolved Inl
        by (simp add: post_markdown_def respond_def failure_def broadcasts_broadcastChange
            split: sum.splits prod.splits option.splits)
    next
      case False
      then show ?thesis
        using Resolved Inl by (simp add: post_markdown_def respond_def failure_def)
    qed
  qed
qed

lemma put_markdown_events:
  "(case put_markdown env now req st of
      (res, st') \<Rightarrow>
        (status res = 200 \<and>
         (\<exists>prep fsPath n.
            resolveFsPathFromApiPath env (body_path req) = Resolved prep fsPath \<and>
            fs_stat (disk st) fsPath = Inr n \<and>
            broadcasts st' = broadcasts st @
              [changeMessage (ROOT_NAME env) ''updated'' (normalizedPath prep) now])) \<or>
        ((status res = 400 \<or> status res = 404 \<or> status res = 500) \<and>
         broadcasts st' = broadcasts st))"
proof (cases "resolveFsPathFromApiPath env (body_path req)")
  case Null
  then show ?thesis by (simp add: put_markdown_def respond_def)
next
  case (Throws m)
  then show ?thesis by (simp add: put_markdown_def respond_def failure_def)
next
  case (Resolved prep fsPath)
  then show ?thesis
    by (simp add: put_markdown_def respond_def failure_def broadcasts_broadcastChange
        split: sum.splits prod.splits option.splits)
qed

lemma post_markdown_folder_events:
  "(case post_markdown_folder env now req st of
      (res, st') \<Rightarrow>
        (status res = 201 \<and>
         (\<exists>prep fsPath.
            resolveFsPathFromApiPath env (body_path req) = Resolved prep fsPath \<and>
            fs_stat (disk st) fsPath = Inl (FsError ENOENT) \<and>
            broadcasts st' = broadcasts st @
              [changeMessage (ROOT_NAME env) ''created'' (normalizedPath prep) now])) \<or>
        ((status res = 400 \<or> status res = 409 \<or> status res = 500) \<and>
         broadcasts st' = broadcasts st))"
proof (cases "resolveFsPathFromApiPath env (body_path req)")
  case Null
  then show ?thesis by (simp add: post_markdown_folder_def respond_def)
next
  case (Throws m)
  then show ?thesis by (simp add: post_markdown_folder_def respond_def failure_def)
next
  case (Resolved prep fsPath)
  show ?thesis
  proof (cases "fs_stat (disk st) fsPath")
    case (Inr n)
    then show ?thesis
      using Resolved by (simp add: post_markdown_folder_def respond_def)
  next
    case (Inl ex)
    show ?thesis
    proof (cases "isENOENT ex")
      case True
      then have "ex = FsError ENOENT" by (cases ex) simp_all
      then show ?thesis
        using Resolved Inl
        by (simp add: post_markdown_folder_def respond_def failure_def
            broadcasts_broadcastChange split: sum.splits)
    next
      case False
      then show ?thesis
        using Resolved Inl by (simp add: post_markdown_folder_def respond_def failure_def)
    qed
  qed
qed

lemma delete_markdown_events:
  "(case delete_markdown env now q st of
      (res, st') \<Rightarrow>
        (status res = 200 \<and>
         (\<exists>prep fsPath n.
            resolveFsPathFromApiPath env (firstIfArray (query_path q)) = Resolved prep fsPath \<and>
            fs_stat (disk st) fsPath = Inr n \<and>
            broadcasts st' = broadcasts st @
              [changeMessage (ROOT_NAME env) ''deleted'' (normalizedPath prep) now])) \<or>
        ((status res = 400 \<or> status res = 403 \<or> status res = 404 \<or> status res = 500) \<and>
         broadcasts st' = broadcasts st))"
proof (cases "resolveFsPathFromApiPath env (firstIfArray (query_path q))")
  case Null
  then show ?thesis by (simp add: delete_markdown_def respond_def Let_def)
next
  case (Throws m)
  then show ?thesis by (simp add: delete_markdown_def respond_def failure_def Let_def)
next
  case (Resolved prep fsPath)
  then show ?thesis
    by (simp add: delete_markdown_def respond_def failure_def broadcasts_broadcastChange Let_def
        split: sum.splits)
qed

text \<open>
  Claim C2. For each of the four mutating routes: when the route succeeds (status 200 or
  201) it has broadcast exactly one event, of the server's collection, whose change type
  is \<open>created\<close> for a write to a path that did not exist and for a folder creation,
  \<open>updated\<close> for a write to a path that existed and for the update route, \<open>deleted\<close> for
  a deletion; when it fails (status 400, 403, 404, 409 or 500) it has broadcast nothing.
\<close>

theorem one_event_per_successful_mutation:
  "(case post_markdown env now req st of
      (res, st') \<Rightarrow>
        (status res = 201 \<and>
         (\<exists>prep fsPath.
            resolveFsPathFromApiPath env (body_path req) = Resolved prep fsPath \<and>
            fs_stat (disk st) fsPath = Inl (FsError ENOENT) \<and>
            broadcasts st' = broadcasts st @
              [changeMessage (ROOT_NAME env) ''created'' (normalizedPath prep) now])) \<or>
        (status res = 200 \<and>
         (\<exists>prep fsPath n.
            resolveFsPathFromApiPath env (body_path req) = Resolved prep fsPath \<and>
            fs_stat (disk st) fsPath = Inr n \<and>
            broadcasts st' = broadcasts st @
              [changeMessage (ROOT_NAME env) ''updated'' (normalizedPath prep) now])) \<or>
        ((status res = 400 \<or> status res = 500) \<and> broadcasts st' = broadcasts st)) \<and>
   (case put_markdown env now req st of
      (res, st') \<Rightarrow>
        (status res = 200 \<and>
         (\<exists>prep fsPath n.
            resolveFsPathFromApiPath env (body_path req) = Resolved prep fsPath \<and>
            fs_stat (disk st) fsPath = Inr n \<and>
            broadcasts st' = broadcasts st @
              [changeMessage (ROOT_NAME env) ''updated'' (normalizedPath prep) now])) \<or>
        ((status res = 400 \<or> status res = 404 \<or> status res = 500) \<and>
         broadcasts st' = broadcasts st)) \<and>
   (case post_markdown_folder env now req st of
      (res, st') \<Rightarrow>
        (status res = 201 \<and>
         (\<exists>prep fsPath.
            resolveFsPathFromApiPath env (body_path req) = Resolved prep fsPath \<and>
            fs_stat (disk st) fsPath = Inl (FsError ENOENT) \<and>
            broadcasts st' = broadcasts st @
              [changeMessage (ROOT_NAME env) ''created'' (normalizedPath prep) now])) \<or>
        ((status res = 400 \<or> status res = 409 \<or> status res = 500) \<and>
         broadcasts st' = broadcasts st)) \<and>
   (case delete_markdown env now q st of
      (res, st') \<Rightarrow>
        (status res = 200 \<and>
         (\<exists>prep fsPath n.
            resolveFsPathFromApiPath env (firstIfArray (query_path q)) = Resolved prep fsPath \<and>
            fs_stat (disk st) fsPath = Inr n \<and>
            broadcasts st' = broadcasts st @
              [changeMessage (ROOT_NAME env) ''deleted'' (normalizedPath prep) now])) \<or>
        ((status res = 400 \<or> status res = 403 \<or> status res = 404 \<or> status res = 500) \<and>
         broadcasts st' = broadcasts st))"
  by (intro conjI post_markdown_events put_markdown_events post_markdown_folder_events
      delete_markdown_events)

theorem one_event_per_successful_mutation_witness:
  "status (fst (post_markdown exampleEnv ''2025-01-01T00:00:00.000Z''
       \<lparr>isJson = True, body_path = Str ''/Haptic/notes/new.md'', body_markdown = Str ''hello''\<rparr>
       exampleServer)) = 201 \<and>
   broadcasts (snd (post_markdown exampleEnv ''2025-01-01T00:00:00.000Z''
       \<lparr>isJson = True, body_path = Str ''/Haptic/notes/new.md'', body_markdown = Str ''hello''\<rparr>
       exampleServer)) =
     broadcasts exampleServer @
       [changeMessage (ROOT_NAME exampleEnv) ''created'' ''/Haptic/notes/new.md''
          ''2025-01-01T00:00:00.000Z''] \<and>
   status (fst (delete_markdown exampleEnv ''2025-01-01T00:00:00.000Z''
       \<lparr>query_path = Str ''/Haptic/Notes'', query_recursive = Undefined\<rparr> exampleServer)) = 400 \<and>
   broadcasts (snd (delete_markdown exampleEnv ''2025-01-01T00:00:00.000Z''
       \<lparr>query_path = Str ''/Haptic/Notes'', query_recursive = Undefined\<rparr> exampleServer)) =
     broadcasts exampleServer"
proof -
  define req where "req = \<lparr>isJson = True, body_path = Str ''/Haptic/notes/new.md'',
                           body_markdown = Str ''hello''\<rparr>"
  define q where "q = \<lparr>query_path = Str ''/Haptic/Notes'', query_recursive = Undefined\<rparr>"
  have created: "status (fst (post_markdown exampleEnv ''2025-01-01T00:00:00.000Z'' req
      exampleServer)) = 201"
    unfolding req_def by code_simp
  have refused: "status (fst (delete_markdown exampleEnv ''2025-01-01T00:00:00.000Z'' q
      exampleServer)) = 400"
    unfolding q_def by code_simp
  have resolved: "resolveFsPathFromApiPath exampleEnv (body_path req) =
      Resolved \<lparr>targetPath = ''/Haptic/notes/new.md'', normalizedPath = ''/Haptic/notes/new.md'',
                original = ''/Haptic/notes/new.md''\<rparr> ''/srv/app/Haptic/notes/new.md''"
    unfolding req_def by code_simp
  from one_event_per_successful_mutation
    [where env = exampleEnv and now = "''2025-01-01T00:00:00.000Z''" and req = req
      and st = exampleServer and q = q]
    created refused resolved
  show ?thesis
    unfolding req_def [symmetric] q_def [symmetric]
    by (auto simp: case_prod_beta)
qed

section \<open>Creating a folder\<close>

lemma map_of_update_same: "map_of (AList.update k v al) k = Some v"
  by (simp add: update_conv')

lemma mkdirs_fresh:
  "\<exists>d. mkdirs (Dir []) ss = Inr d \<and> lookup d ss = Inr (Dir []) \<and>
       (\<forall>k \<le> length ss. \<exists>es. lookup d (take k ss) = Inr (Dir es))"
proof (induction ss)
  case Nil
  show ?case by simp
next
  case (Cons s ss)
  then obtain c where c: "mkdirs (Dir []) ss = Inr c" "lookup c ss = Inr (Dir [])"
    "\<forall>k \<le> length ss. \<exists>es. lookup c (take k ss) = Inr (Dir es)"
    by blast
  have "\<exists>es. lookup (Dir [(s, c)]) (take k (s # ss)) = Inr (Dir es)"
    if "k \<le> length (s # ss)" for k
    using that c(3) by (cases k) simp_all
  then show ?case using c(1,2) by simp
qed

lemma mkdirs_after_ENOENT:
  "lookup n ss = Inl ENOENT \<Longrightarrow>
   \<exists>d. mkdirs n ss = Inr d \<and> lookup d ss = Inr (Dir []) \<and>
       (\<forall>k \<le> length ss. \<exists>es. lookup d (take k ss) = Inr (Dir es))"
proof (induction n ss rule: lookup.induct)
  case (1 n)
  then show ?case by simp
next
  case (2 c s ss)
  then show ?case by simp
next
  case (3 es s ss)
  show ?case
  proof (cases "map_of es s")
    case None
    obtain c where c: "mkdirs (Dir []) ss = Inr c" "lookup c ss = Inr (Dir [])"
      "\<forall>k \<le> length ss. \<exists>es. lookup c (take k ss) = Inr (Dir es)"
      using mkdirs_fresh [of ss] by blast
    have "\<exists>es'. lookup (Dir (AList.update s c es)) (take k (s # ss)) = Inr (Dir es')"
      if "k \<le> length (s # ss)" for k
      using that c(3) by (cases k) (simp_all add: map_of_update_same)
    then show ?thesis using None c(1,2) by (simp add: map_of_update_same)
  next
    case (Some child)
    then have "lookup child ss = Inl ENOENT" using 3(2) by simp
    then obtain c where c: "mkdirs child ss = Inr c" "lookup c ss = Inr (Dir [])"
      "\<forall>k \<le> length ss. \<exists>es. lookup c (take k ss) = Inr (Dir es)"
      using 3(1) [OF Some] by blast
    have "\<exists>es'. lookup (Dir (AList.update s c es)) (take k (s # ss)) = Inr (Dir es')"
      if "k \<le> length (s # ss)" for k
      using that c(3) by (cases k) (simp_all add: map_of_update_same)
    then show ?thesis using Some c(1,2) by (simp add: map_of_update_same)
  qed
qed

text \<open>
  Claim C7. For a JSON request whose path resolves: when the target exists, the route
  answers 409 and returns the state as it was, so an existing file is neither deleted
  nor modified, with the error \<open>Directory already exists\<close> for a directory and \<open>A file
  with the same name already exists\<close> for a file, two different answers; when the target
  is absent (\<open>stat\<close> fails with \<open>ENOENT\<close>), the directory is created with every missing
  ancestor, and the route answers 201; when \<open>stat\<close> fails otherwise, the route answers
  500 and the state is as it was.
\<close>

theorem folder_creation_conflicts:
  assumes json: "isJson req"
    and res: "resolveFsPathFromApiPath env (body_path req) = Resolved prep fsPath"
  shows
    "(case fs_stat (disk st) fsPath of
        Inr (Dir es) \<Rightarrow>
          post_markdown_folder env now req st =
            (respond 409 [(''error'', JString ''Directory already exists''),
                          (''path'', JString (normalizedPath prep))], st)
      | Inr (File content) \<Rightarrow>
          post_markdown_folder env now req st =
            (respond 409 [(''error'', JString ''A file with the same name already exists''),
                          (''path'', JString (normalizedPath prep))], st)
      | Inl ex \<Rightarrow>
          if isENOENT ex then
            (\<exists>d. fs_mkdir_recursive (disk st) fsPath = Inr d \<and>
                 fs_stat d fsPath = Inr (Dir []) \<and>
                 (\<forall>k \<le> length (segments fsPath).
                    \<exists>es. lookup d (take k (segments fsPath)) = Inr (Dir es)) \<and>
                 post_markdown_folder env now req st =
                   (respond 201 [(''message'', JString ''Directory created successfully''),
                                 (''path'', JString (normalizedPath prep)),
                                 (''fullPath'', JString fsPath)],
                    broadcastChange (ROOT_NAME env) ''created'' (normalizedPath prep) now
                      (st\<lparr>disk := d\<rparr>)))
          else post_markdown_folder env now req st =
                 (failure ''Failed to create directory'' ex, st)) \<and>
     respond 409 [(''error'', JString ''Directory already exists''),
                  (''path'', JString (normalizedPath prep))] \<noteq>
     respond 409 [(''error'', JString ''A file with the same name already exists''),
                  (''path'', JString (normalizedPath prep))]"
proof -
  have t: "truthy (body_path req)"
    using prepared_truthy [OF resolve_prepared [OF res]] .
  have distinct: "respond 409 [(''error'', JString ''Directory already exists''),
                  (''path'', JString (normalizedPath prep))] \<noteq>
     respond 409 [(''error'', JString ''A file with the same name already exists''),
                  (''path'', JString (normalizedPath prep))]"
    by (simp add: respond_def)
  have main: "(case fs_stat (disk st) fsPath of
        Inr (Dir es) \<Rightarrow>
          post_markdown_folder env now req st =
            (respond 409 [(''error'', JString ''Directory already exists''),
                          (''path'', JString (normalizedPath prep))], st)
      | Inr (File content) \<Rightarrow>
          post_markdown_folder env now req st =
            (respond 409 [(''error'', JString ''A file with the same name already exists''),
                          (''path'', JString (normalizedPath prep))], st)
      | Inl ex \<Rightarrow>
          if isENOENT ex then
            (\<exists>d. fs_mkdir_recursive (disk st) fsPath = Inr d \<and>
                 fs_stat d fsPath = Inr (Dir []) \<and>
                 (\<forall>k \<le> length (segments fsPath).
                    \<exists>es. lookup d (take k (segments fsPath)) = Inr (Dir es)) \<and>
                 post_markdown_folder env now req st =
                   (respond 201 [(''message'', JString ''Directory created successfully''),
                                 (''path'', JString (normalizedPath prep)),
                                 (''fullPath'', JString fsPath)],
                    broadcastChange (ROOT_NAME env) ''created'' (normalizedPath prep) now
                      (st\<lparr>disk := d\<rparr>)))
          else post_markdown_folder env now req st =
                 (failure ''Failed to create directory'' ex, st))"
  proof (cases "fs_stat (disk st) fsPath")
    case (Inr n)
    then show ?thesis
      using json t res by (cases n) (simp_all add: post_markdown_folder_def)
  next
    case (Inl ex)
    show ?thesis
    proof (cases "isENOENT ex")
      case False
      then show ?thesis using Inl json t res by (simp add: post_markdown_folder_def)
    next
      case True
      then have "ex = FsError ENOENT" by (cases ex) simp_all
      then have plain: "\<not> hasNullByte fsPath"
        and "lookup (disk st) (segments fsPath) = Inl ENOENT"
        using Inl by (auto simp: fs_stat_def split: sum.splits if_splits)
      then obtain d where d: "mkdirs (disk st) (segments fsPath) = Inr d"
        "lookup d (segments fsPath) = Inr (Dir [])"
        "\<forall>k \<le> length (segments fsPath). \<exists>es. lookup d (take k (segments fsPath)) = Inr (Dir es)"
        using mkdirs_after_ENOENT by blast
      have "fs_mkdir_recursive (disk st) fsPath = Inr d" "fs_stat d fsPath = Inr (Dir [])"
        using d(1,2) plain by (simp_all add: fs_mkdir_recursive_def fs_stat_def)
      then show ?thesis
        using Inl True json t res d(3) by (simp add: post_markdown_folder_def)
    qed
  qed
  from main distinct show ?thesis by (rule conjI)
qed

theorem folder_creation_conflicts_witness:
  "post_markdown_folder exampleEnv ''2025-01-01T00:00:00.000Z''
       \<lparr>isJson = True, body_path = Str ''/Haptic/a.md'', body_markdown = Undefined\<rparr>
       exampleServer =
     (respond 409 [(''error'', JString ''A file with the same name already exists''),
                   (''path'', JString ''/Haptic/a.md'')], exampleServer) \<and>
   fs_stat (disk exampleServer) ''/srv/app/Haptic/a.md'' = Inr (File ''hello'')"
proof -
  define req where "req = \<lparr>isJson = True, body_path = Str ''/Haptic/a.md'',
                           body_markdown = Undefined\<rparr>"
  have json: "isJson req"
    by (simp add: req_def)
  have res: "resolveFsPathFromApiPath exampleEnv (body_path req) =
      Resolved \<lparr>targetPath = ''/Haptic/a.md'', normalizedPath = ''/Haptic/a.md'',
                original = ''/Haptic/a.md''\<rparr> ''/srv/app/Haptic/a.md''"
    unfolding req_def by code_simp
  have existing: "fs_stat (disk exampleServer) ''/srv/app/Haptic/a.md'' = Inr (File ''hello'')"
    by code_simp
  from folder_creation_conflicts [OF json res, of exampleServer "''2025-01-01T00:00:00.000Z''"] existing
  show ?thesis
    unfolding req_def [symmetric] by simp
qed

section \<open>The storage root stays on the disk\<close>

text \<open>
  Creating directories and writing a file never turn a directory into something else;
  removing an entry leaves every directory that is not at or below the removed path.
\<close>

lemma map_of_update_other: "k' \<noteq> k \<Longrightarrow> map_of (AList.update k v al) k' = map_of al k'"
  by (simp add: update_conv')

lemma mkdirs_keeps_directories:
  "mkdirs d ps = Inr d' \<Longrightarrow> lookup d rs = Inr (Dir es) \<Longrightarrow>
   \<exists>es'. lookup d' rs = Inr (Dir es')"
proof (induction d ps arbitrary: d' rs es rule: mkdirs.induct)
  case (1 es0)
  then show ?case by simp
next
  case (2 c)
  then show ?case by simp
next
  case (3 c s ss)
  then show ?case by simp
next
  case (4 es0 s ss)
  define child where "child = (case map_of es0 s of None \<Rightarrow> Dir [] | Some c \<Rightarrow> c)"
  from "4.prems"(1) obtain c' where c': "mkdirs child ss = Inr c'"
    and d': "d' = Dir (AList.update s c' es0)"
    by (auto simp: child_def split: sum.splits)
  show ?case
  proof (cases rs)
    case Nil
    then show ?thesis by (simp add: d')
  next
    case (Cons r rs')
    then obtain c0 where c0: "map_of es0 r = Some c0" "lookup c0 rs' = Inr (Dir es)"
      using "4.prems"(2) by (auto split: option.splits)
    show ?thesis
    proof (cases "r = s")
      case True
      then have "child = c0" using c0(1) by (simp add: child_def)
      then obtain es' where "lookup c' rs' = Inr (Dir es')"
        using "4.IH" [of c' rs' es] c' c0(2) by (auto simp: child_def)
      then show ?thesis using True Cons by (simp add: d' map_of_update_same)
    next
      case False
      then show ?thesis using Cons c0 by (simp add: d' map_of_update_other)
    qed
  qed
qed

lemma writeAt_keeps_directories:
  "writeAt d ps content = Inr d' \<Longrightarrow> lookup d rs = Inr (Dir es) \<Longrightarrow>
   \<exists>es'. lookup d' rs = Inr (Dir es')"
proof (induction d ps content arbitrary: d' rs es rule: writeAt.induct)
  case (1 c content)
  then show ?case by (cases rs) simp_all
next
  case (2 es0 content)
  then show ?case by simp
next
  case (3 c s ss content)
  then show ?case by simp
next
  case (4 es0 s ss content)
  show ?case
  proof (cases rs)
    case Nil
    then show ?thesis using "4.prems"(1) by (auto split: option.splits sum.splits if_splits)
  next
    case (Cons r rs')
    then obtain c0 where c0: "map_of es0 r = Some c0" "lookup c0 rs' = Inr (Dir es)"
      using "4.prems"(2) by (auto split: option.splits)
    show ?thesis
    proof (cases "map_of es0 s")
      case None
      then have "r \<noteq> s" using c0(1) by auto
      moreover have "d' = Dir (AList.update s (File content) es0)"
        using "4.prems"(1) None by (auto split: if_splits)
      ultimately show ?thesis using Cons c0 by (simp add: map_of_update_other)
    next
      case (Some c)
      then obtain c' where c': "writeAt c ss content = Inr c'"
        and d': "d' = Dir (AList.update s c' es0)"
        using "4.prems"(1) by (auto split: sum.splits)
      show ?thesis
      proof (cases "r = s")
        case True
        then have "c = c0" using Some c0(1) by simp
        then obtain es' where "lookup c' rs' = Inr (Dir es')"
          using "4.IH" [OF Some c', of rs' es] c0(2) by auto
        then show ?thesis using True Cons by (simp add: d' map_of_update_same)
      next
        case False
        then show ?thesis using Cons c0 by (simp add: d' map_of_update_other)
      qed
    qed
  qed
qed

lemma removeAt_keeps_directories:
  "removeAt check d ps = Inr d' \<Longrightarrow> lookup d rs = Inr (Dir es) \<Longrightarrow> \<not> prefix ps rs \<Longrightarrow>
   \<exists>es'. lookup d' rs = Inr (Dir es')"
proof (induction check d ps arbitrary: d' rs es rule: removeAt.induct)
  case (1 check n)
  then show ?case by simp
next
  case (2 check c s ss)
  then show ?case by simp
next
  case (3 check es0 s ss)
  from "3.prems"(1) obtain c where c: "map_of es0 s = Some c"
    by (auto split: option.splits)
  show ?case
  proof (cases rs)
    case Nil
    then show ?thesis
      using "3.prems"(1) c by (auto split: option.splits sum.splits if_splits)
  next
    case (Cons r rs')
    then obtain c0 where c0: "map_of es0 r = Some c0" "lookup c0 rs' = Inr (Dir es)"
      using "3.prems"(2) by (auto split: option.splits)
    show ?thesis
    proof (cases "ss = []")
      case True
      then have "r \<noteq> s" using "3.prems"(3) Cons by auto
      moreover have "d' = Dir (AList.delete s es0)"
        using "3.prems"(1) c True by (auto split: option.splits)
      ultimately show ?thesis using Cons c0 by simp
    next
      case False
      then obtain c' where c': "removeAt check c ss = Inr c'"
        and d': "d' = Dir (AList.update s c' es0)"
        using "3.prems"(1) c by (auto split: sum.splits)
      show ?thesis
      proof (cases "r = s")
        case True
        then have "c = c0" using c c0(1) by simp
        moreover have "\<not> prefix ss rs'" using "3.prems"(3) Cons True by simp
        ultimately obtain es' where "lookup c' rs' = Inr (Dir es')"
          using "3.IH" [OF c False c', of rs' es] c0(2) by auto
        then show ?thesis using True Cons by (simp add: d' map_of_update_same)
      next
        case False
        then show ?thesis using Cons c0 by (simp add: d' map_of_update_other)
      qed
    qed
  qed
qed

lemma fs_writeFile_keeps_directories:
  assumes "lookup d rs = Inr (Dir es)"
  shows "\<exists>es'. lookup (fst (fs_writeFile d p m)) rs = Inr (Dir es')"
proof -
  have "\<exists>es'. lookup (fst (writeOpened d p chunks)) rs = Inr (Dir es')" for chunks
    using assms writeAt_keeps_directories [OF _ assms]
    by (auto simp: writeOpened_def split: prod.splits sum.splits)
  then show ?thesis
    using assms by (cases m) (simp_all add: fs_writeFile_def)
qed

lemma inside_not_above:
  assumes cwd: "path_isAbsolute (process_cwd env)"
    and res: "resolveFsPathFromApiPath env raw = Resolved prep target"
    and inner: "target \<noteq> volResolved env"
  shows "\<not> prefix (segments target) (segments (volResolved env))"
proof
  assume above: "prefix (segments target) (segments (volResolved env))"
  obtain args where "target = path_resolve (process_cwd env) args"
    using resolve_is_path_resolve [OF res] by blast
  then have t: "target = slash # join_slash (segments target)"
    using path_resolve_canonical [OF cwd] by simp
  have v: "volResolved env = slash # join_slash (segments (volResolved env))"
    unfolding volResolved_def using cwd by (rule path_resolve_canonical)
  have "insideVolume env target" using res by (rule resolve_insideVolume)
  then obtain r where "target = volResolved env @ slash # r"
    using inner by (auto simp: insideVolume_def startsWith_def prefix_def path_sep_def)
  then have "segments target = segments (volResolved env) @ segments r"
    by (simp add: segments_append)
  then have "segments target = segments (volResolved env)"
    using above by (auto simp: prefix_def)
  then have "target = volResolved env" using t v by metis
  then show False using inner by simp
qed

text \<open>
  That the storage root is on the disk is an invariant of the server: whatever a mutating
  route does, a storage root that is a directory before the request is one after it.
\<close>

lemma storage_root_stays:
  assumes cwd: "path_isAbsolute (process_cwd env)"
    and root: "lookup (disk st) (segments (volResolved env)) = Inr (Dir es)"
  shows "(\<exists>es'. lookup (disk (snd (post_markdown env now req st)))
                  (segments (volResolved env)) = Inr (Dir es')) \<and>
         (\<exists>es'. lookup (disk (snd (put_markdown env now req st)))
                  (segments (volResolved env)) = Inr (Dir es')) \<and>
         (\<exists>es'. lookup (disk (snd (post_markdown_folder env now req st)))
                  (segments (volResolved env)) = Inr (Dir es')) \<and>
         (\<exists>es'. lookup (disk (snd (delete_markdown env now q st)))
                  (segments (volResolved env)) = Inr (Dir es'))"
proof (intro conjI)
  show "\<exists>es'. lookup (disk (snd (post_markdown env now req st)))
                  (segments (volResolved env)) = Inr (Dir es')"
  proof -
    have "\<exists>es'. lookup d1 (segments (volResolved env)) = Inr (Dir es')"
      if "fs_mkdir_recursive (disk st) dir = Inr d1" for dir d1
      using that root mkdirs_keeps_directories
      by (fastforce simp: fs_mkdir_recursive_def split: sum.splits if_splits)
    then have "\<exists>es'. lookup d2 (segments (volResolved env)) = Inr (Dir es')"
      if "fs_mkdir_recursive (disk st) dir = Inr d1" "fs_writeFile d1 p m = (d2, r)"
      for dir d1 p m d2 r
      using that fs_writeFile_keeps_directories [of d1 _ _ p m] by fastforce
    then show ?thesis
      using root
      by (auto simp: post_markdown_def disk_broadcastChange
          split: resolution.splits sum.splits if_splits prod.splits option.splits)
  qed
next
  show "\<exists>es'. lookup (disk (snd (put_markdown env now req st)))
                  (segments (volResolved env)) = Inr (Dir es')"
  proof -
    have "\<exists>es'. lookup d2 (segments (volResolved env)) = Inr (Dir es')"
      if "fs_writeFile (disk st) p m = (d2, r)" for p m d2 r
      using that fs_writeFile_keeps_directories [OF root, of p m] by simp
    then show ?thesis
      using root
      by (auto simp: put_markdown_def disk_broadcastChange
          split: resolution.splits sum.splits if_splits prod.splits option.splits)
  qed
next
  show "\<exists>es'. lookup (disk (snd (post_markdown_folder env now req st)))
                  (segments (volResolved env)) = Inr (Dir es')"
  proof -
    have "\<exists>es'. lookup d1 (segments (volResolved env)) = Inr (Dir es')"
      if "fs_mkdir_recursive (disk st) dir = Inr d1" for dir d1
      using that root mkdirs_keeps_directories
      by (fastforce simp: fs_mkdir_recursive_def split: sum.splits if_splits)
    then show ?thesis
      using root
      by (auto simp: post_markdown_folder_def disk_broadcastChange
          split: resolution.splits sum.splits if_splits)
  qed
next
  show "\<exists>es'. lookup (disk (snd (delete_markdown env now q st)))
                  (segments (volResolved env)) = Inr (Dir es')"
  proof (cases "resolveFsPathFromApiPath env (firstIfArray (query_path q))")
    case Null
    then show ?thesis using root by (simp add: delete_markdown_def Let_def)
  next
    case (Throws m)
    then show ?thesis using root by (simp add: delete_markdown_def Let_def)
  next
    case (Resolved prep target)
    show ?thesis
    proof (cases "target = volResolved env")
      case True
      then show ?thesis
        using root Resolved
        by (simp add: delete_markdown_def Let_def split: sum.splits)
    next
      case False
      have above: "\<not> prefix (segments target) (segments (volResolved env))"
        using cwd Resolved False by (rule inside_not_above)
      have "\<exists>es'. lookup d' (segments (volResolved env)) = Inr (Dir es')"
        if "removeAt check (disk st) (segments target) = Inr d'" for check d'
        using that root above by (rule removeAt_keeps_directories)
      then have "\<exists>es'. lookup d' (segments (volResolved env)) = Inr (Dir es')"
        if "fs_rmdir (disk st) target r = Inr d' \<or> fs_unlink (disk st) target = Inr d'" for r d'
        using that by (auto simp: fs_rmdir_def fs_unlink_def split: sum.splits if_splits)
      then show ?thesis
        using root Resolved False
        by (auto simp: delete_markdown_def Let_def disk_broadcastChange
            split: sum.splits if_splits)
    qed
  qed
qed

section \<open>Deleting\<close>

lemma stat_readdir:
  "fs_stat dsk p = Inr (Dir es) \<Longrightarrow> fs_readdir dsk p = Inr es"
  by (auto simp: fs_stat_def fs_readdir_def split: sum.splits if_splits)

text \<open>
  Claim C8. For every delete request whose path resolves to exactly the storage root,
  the storage root being on the disk as the data model has it, the route answers 403 with
  \<open>Cannot delete root directory\<close> and returns the state as it was, whatever the
  \<open>recursive\<close> parameter of the request is.
\<close>

theorem root_deletion_forbidden:
  assumes res: "resolveFsPathFromApiPath env (firstIfArray (query_path q)) =
                  Resolved prep (volResolved env)"
    and root: "fs_stat (disk st) (volResolved env) = Inr n"
  shows "delete_markdown env now q st =
           (respond 403
              [(''error'', JString ''Cannot delete root directory''),
               (''details'', JString ''Deletion of the root volume directory is not allowed'')],
            st)"
proof -
  have "truthy (firstIfArray (query_path q))"
    using prepared_truthy [OF resolve_prepared [OF res]] .
  then show ?thesis
    using res root by (simp add: delete_markdown_def Let_def)
qed

theorem root_deletion_forbidden_witness:
  "delete_markdown exampleEnv ''2025-01-01T00:00:00.000Z''
       \<lparr>query_path = Str ''/Haptic'', query_recursive = Str ''true''\<rparr> exampleServer =
     (respond 403
        [(''error'', JString ''Cannot delete root directory''),
         (''details'', JString ''Deletion of the root volume directory is not allowed'')],
      exampleServer) \<and>
   delete_markdown exampleEnv ''2025-01-01T00:00:00.000Z''
       \<lparr>query_path = Str ''/'', query_recursive = Str ''false''\<rparr> exampleServer =
     (respond 403
        [(''error'', JString ''Cannot delete root directory''),
         (''details'', JString ''Deletion of the root volume directory is not allowed'')],
      exampleServer)"
proof -
  define q1 where "q1 = \<lparr>query_path = Str ''/Haptic'', query_recursive = Str ''true''\<rparr>"
  define q2 where "q2 = \<lparr>query_path = Str ''/'', query_recursive = Str ''false''\<rparr>"
  have vol: "volResolved exampleEnv = ''/srv/app/Haptic''"
    by code_simp
  have r1: "resolveFsPathFromApiPath exampleEnv (firstIfArray (query_path q1)) =
      Resolved \<lparr>targetPath = ''/Haptic'', normalizedPath = ''/Haptic'', original = ''/Haptic''\<rparr>
        (volResolved exampleEnv)"
    unfolding q1_def by code_simp
  have r2: "resolveFsPathFromApiPath exampleEnv (firstIfArray (query_path q2)) =
      Resolved \<lparr>targetPath = ''/'', normalizedPath = ''/'', original = ''/''\<rparr>
        (volResolved exampleEnv)"
    unfolding q2_def by code_simp
  have root: "fs_stat (disk exampleServer) (volResolved exampleEnv) =
      Inr (Dir [(''b.md'', File ''bee''),
            (''.git'', Dir [(''config'', File [])]),
            (''Notes'', Dir [(''z.md'', File ''1''), (''A.md'', File ''2''),
                             (''.hidden'', File ''3'')]),
            (''a.md'', File ''hello''),
            (''dots'', Dir [(''.keep'', File [])]),
            (''empty'', Dir [])])"
    by code_simp
  from root_deletion_forbidden [OF r1 root] root_deletion_forbidden [OF r2 root]
  show ?thesis
    unfolding q1_def q2_def by simp
qed

lemma buildItems_hidden:
  assumes "\<forall>entry \<in> set es. startsWith (fst entry) ''.''"
  shows "buildItems collation env rel es = []"
proof -
  have "filter (\<lambda>entry. \<not> startsWith (fst entry) ''.'')
          (Sorting_Algorithms.sort (byName collation) es) = []"
    using assms by (simp add: filter_empty_conv)
  then show ?thesis by (subst buildItems.simps) simp
qed

text \<open>
  Claim C10. The emptiness test of a delete that is not recursive counts hidden entries.
  For a directory other than the storage root that has entries, all of them with names
  beginning with a dot: its tree is empty and its listing of names is empty, and a delete
  without \<open>recursive=true\<close> answers 400 with \<open>Directory not empty\<close> and returns the state
  as it was.
\<close>

theorem hidden_entries_count_as_content:
  assumes res: "resolveFsPathFromApiPath env (firstIfArray (query_path q)) =
                  Resolved prep target"
    and inner: "target \<noteq> volResolved env"
    and dir: "fs_stat (disk st) target = Inr (Dir es)"
    and some: "es \<noteq> []"
    and hidden: "\<forall>entry \<in> set es. startsWith (fst entry) ''.''"
    and flag: "query_recursive q \<noteq> Str ''true''"
  shows "delete_markdown env now q st =
           (respond 400
              [(''error'', JString ''Directory not empty''),
               (''details'', JString ''Use recursive=true to delete non-empty directories'')],
            st) \<and>
         buildFileTree collation env (disk st) target rel = Inr [] \<and>
         get_markdown_names collation env q st = \<lparr>status = 200, body = JArray []\<rparr>"
proof -
  have t: "truthy (firstIfArray (query_path q))"
    using prepared_truthy [OF resolve_prepared [OF res]] .
  have rd: "fs_readdir (disk st) target = Inr es"
    using dir by (rule stat_readdir)
  have del: "delete_markdown env now q st =
           (respond 400
              [(''error'', JString ''Directory not empty''),
               (''details'', JString ''Use recursive=true to delete non-empty directories'')],
            st)"
    using t res inner dir rd some flag by (simp add: delete_markdown_def Let_def)
  have tree: "buildFileTree collation env (disk st) target rel = Inr []"
    using rd hidden by (simp add: buildFileTree_def buildItems_hidden)
  have "filter (\<lambda>entry. \<not> startsWith (fst entry) ''.'') es = []"
    using hidden by (simp add: filter_empty_conv)
  then have names: "get_markdown_names collation env q st = \<lparr>status = 200, body = JArray []\<rparr>"
    using t res dir rd by (simp add: get_markdown_names_def Let_def)
  from del tree names show ?thesis by simp
qed

theorem hidden_entries_count_as_content_witness:
  "fs_stat (disk exampleServer) ''/srv/app/Haptic/dots'' = Inr (Dir [(''.keep'', File [])]) \<and>
   delete_markdown exampleEnv ''2025-01-01T00:00:00.000Z''
       \<lparr>query_path = Str ''/Haptic/dots'', query_recursive = Undefined\<rparr> exampleServer =
     (respond 400
        [(''error'', JString ''Directory not empty''),
         (''details'', JString ''Use recursive=true to delete non-empty directories'')],
      exampleServer) \<and>
   buildFileTree exampleCollation exampleEnv (disk exampleServer) ''/srv/app/Haptic/dots'' [] =
     Inr [] \<and>
   get_markdown_names exampleCollation exampleEnv
       \<lparr>query_path = Str ''/Haptic/dots'', query_recursive = Undefined\<rparr> exampleServer =
     \<lparr>status = 200, body = JArray []\<rparr>"
proof -
  define q where "q = \<lparr>query_path = Str ''/Haptic/dots'', query_recursive = Undefined\<rparr>"
  have res: "resolveFsPathFromApiPath exampleEnv (firstIfArray (query_path q)) =
      Resolved \<lparr>targetPath = ''/Haptic/dots'', normalizedPath = ''/Haptic/dots'',
                original = ''/Haptic/dots''\<rparr> ''/srv/app/Haptic/dots''"
    unfolding q_def by code_simp
  have inner: "''/srv/app/Haptic/dots'' \<noteq> volResolved exampleEnv"
    by code_simp
  have dir: "fs_stat (disk exampleServer) ''/srv/app/Haptic/dots'' =
      Inr (Dir [(''.keep'', File [])])"
    by code_simp
  have some: "[(''.keep'', File [])] \<noteq> []"
    by simp
  have hidden: "\<forall>entry \<in> set [(''.keep'', File [])]. startsWith (fst entry) ''.''"
    by (simp add: startsWith_def)
  have flag: "query_recursive q \<noteq> Str ''true''"
    by (simp add: q_def)
  from hidden_entries_count_as_content [OF res inner dir some hidden flag] dir
  show ?thesis
    unfolding q_def by simp
qed

section \<open>The tree\<close>

lemma sorted_key_map:
  "Sorting_Algorithms.sorted (key f cmp) xs \<longleftrightarrow> Sorting_Algorithms.sorted cmp (map f xs)"
  by (induction xs rule: induct_list012) simp_all

lemma sorted_visible_entries:
  "Sorting_Algorithms.sorted (localeCompare_base collation)
     (map fst (filter P (Sorting_Algorithms.sort (byName collation) es)))"
proof -
  have "Sorting_Algorithms.sorted (byName collation)
          (filter P (Sorting_Algorithms.sort (byName collation) es))"
    by (simp add: filter_sort)
  then show ?thesis by (simp add: byName_def sorted_key_map)
qed

lemma buildItems_names:
  "map item_name (buildItems collation env rel es) =
   map fst (filter (\<lambda>entry. \<not> startsWith (fst entry) ''.'')
              (Sorting_Algorithms.sort (byName collation) es))"
  by (subst buildItems.simps) (simp add: Let_def split: node.splits)

lemma buildItems_nodes:
  "\<forall>t \<in> set (concat (map nodes (buildItems collation env rel es))).
     \<not> startsWith (item_name t) ''.'' \<and>
     Sorting_Algorithms.sorted (localeCompare_base collation) (map item_name (item_children t))"
proof (induction collation env rel es rule: buildItems.induct)
  case (1 collation env relativeDir dirEntries)
  define visible where "visible = filter (\<lambda>entry. \<not> startsWith (fst entry) ''.'')
      (Sorting_Algorithms.sort (byName collation) dirEntries)"
  define relativePath where "relativePath entry =
      (if relativeDir \<noteq> [] then path_join [relativeDir, fst entry] else fst entry)"
    for entry :: "string \<times> node"
  define item where "item entry =
      (case snd entry of
        Dir es \<Rightarrow> FolderItem (toApiPath env (relativePath entry)) (fst entry)
                   (buildItems collation env (relativePath entry) es)
      | File c \<Rightarrow> FileItem (toApiPath env (relativePath entry)) (fst entry))"
    for entry
  have items: "buildItems collation env relativeDir dirEntries = map item visible"
    by (subst buildItems.simps)
      (simp add: visible_def item_def relativePath_def Let_def split: node.splits)
  have "\<not> startsWith (item_name t) ''.'' \<and>
        Sorting_Algorithms.sorted (localeCompare_base collation) (map item_name (item_children t))"
    if entry: "entry \<in> set visible" and t: "t \<in> set (nodes (item entry))" for entry t
  proof (cases "snd entry")
    case (File c)
    then have "t = FileItem (toApiPath env (relativePath entry)) (fst entry)"
      using t by (simp add: item_def)
    then show ?thesis using entry by (simp add: visible_def)
  next
    case (Dir es)
    then have it: "item entry = FolderItem (toApiPath env (relativePath entry)) (fst entry)
        (buildItems collation env (relativePath entry) es)"
      by (simp add: item_def)
    from t it consider (self) "t = item entry"
      | (below) "t \<in> set (concat (map nodes (buildItems collation env (relativePath entry) es)))"
      by auto
    then show ?thesis
    proof cases
      case self
      have "Sorting_Algorithms.sorted (localeCompare_base collation)
              (map item_name (buildItems collation env (relativePath entry) es))"
        unfolding buildItems_names by (rule sorted_visible_entries)
      then show ?thesis using self it entry by (simp add: visible_def)
    next
      case below
      have "\<forall>t \<in> set (concat (map nodes (buildItems collation env (relativePath entry) es))).
          \<not> startsWith (item_name t) ''.'' \<and>
          Sorting_Algorithms.sorted (localeCompare_base collation)
            (map item_name (item_children t))"
        using entry Dir
        by (intro "1.IH" [of entry "relativePath entry" "toApiPath env (relativePath entry)" es])
          (simp_all add: visible_def relativePath_def)
      then show ?thesis using below by blast
    qed
  qed
  then show ?case unfolding items by auto
qed

text \<open>
  Claim C9. In the tree built over a directory, no item at any depth has a name that
  begins with a dot; the names of the items of the top level, and the names of the
  children of every folder at any depth, are in ascending order of the comparison that
  ignores case.
\<close>

theorem tree_hides_dot_names_and_is_sorted:
  assumes "buildFileTree collation env dsk currentDir relativeDir = Inr items"
  shows "(\<forall>t \<in> set (concat (map nodes items)). \<not> startsWith (item_name t) ''.'') \<and>
         Sorting_Algorithms.sorted (localeCompare_base collation) (map item_name items) \<and>
         (\<forall>t \<in> set (concat (map nodes items)).
            Sorting_Algorithms.sorted (localeCompare_base collation)
              (map item_name (item_children t)))"
proof -
  from assms obtain es where items: "items = buildItems collation env relativeDir es"
    by (auto simp: buildFileTree_def split: sum.splits)
  have "Sorting_Algorithms.sorted (localeCompare_base collation) (map item_name items)"
    unfolding items buildItems_names by (rule sorted_visible_entries)
  then show ?thesis
    using buildItems_nodes [of collation env relativeDir es] items by blast
qed

theorem tree_hides_dot_names_and_is_sorted_witness:
  "buildFileTree exampleCollation exampleEnv exampleDisk ''/srv/app/Haptic'' [] =
     Inr [FileItem ''/Haptic/a.md'' ''a.md'',
          FileItem ''/Haptic/b.md'' ''b.md'',
          FolderItem ''/Haptic/dots'' ''dots'' [],
          FolderItem ''/Haptic/empty'' ''empty'' [],
          FolderItem ''/Haptic/Notes'' ''Notes''
            [FileItem ''/Haptic/Notes/A.md'' ''A.md'',
             FileItem ''/Haptic/Notes/z.md'' ''z.md'']] \<and>
   Sorting_Algorithms.sorted (localeCompare_base exampleCollation)
     [''a.md'', ''b.md'', ''dots'', ''empty'', ''Notes''] \<and>
   Sorting_Algorithms.sorted (localeCompare_base exampleCollation) [''A.md'', ''z.md'']"
proof -
  have tree: "buildFileTree exampleCollation exampleEnv exampleDisk ''/srv/app/Haptic'' [] =
     Inr [FileItem ''/Haptic/a.md'' ''a.md'',
          FileItem ''/Haptic/b.md'' ''b.md'',
          FolderItem ''/Haptic/dots'' ''dots'' [],
          FolderItem ''/Haptic/empty'' ''empty'' [],
          FolderItem ''/Haptic/Notes'' ''Notes''
            [FileItem ''/Haptic/Notes/A.md'' ''A.md'',
             FileItem ''/Haptic/Notes/z.md'' ''z.md'']]"
    by code_simp
  from tree_hides_dot_names_and_is_sorted [OF tree] tree show ?thesis
    by simp
qed

end
